theory Spec2Isabelle
  imports Main "HOL-Library.Multiset"
begin

section \<open>Data model of \<^verbatim>\<open>vuln_scanner.py\<close>\<close>

text \<open>
  A \<^verbatim>\<open>requests.Response\<close>, reduced to the two attributes the scanner reads:
  \<^verbatim>\<open>status_code\<close> and \<^verbatim>\<open>text\<close>.
\<close>

record response =
  status_code :: int
  resp_text :: string

text \<open>
  The scanner tests a response with \<^verbatim>\<open>if resp\<close> and \<^verbatim>\<open>elif resp\<close>. For \<^verbatim>\<open>None\<close>
  that is false. For a \<^verbatim>\<open>requests.Response\<close> Python calls \<^verbatim>\<open>Response.__bool__\<close>, which
  returns \<^verbatim>\<open>self.ok\<close>: false exactly when \<^verbatim>\<open>raise_for_status\<close> would raise, that is
  when \<^verbatim>\<open>400 <= status_code < 600\<close>.
\<close>

definition ok :: "response \<Rightarrow> bool" where
  "ok r = (\<not> (400 \<le> status_code r \<and> status_code r < 600))"

definition truthy_resp :: "response option \<Rightarrow> bool" where
  "truthy_resp resp = (case resp of None \<Rightarrow> False | Some r \<Rightarrow> ok r)"

text \<open>
  What one call \<^verbatim>\<open>requests.get(url, timeout=timeout, verify=False, allow_redirects=True)\<close>
  does: it returns a response, or raises. \<^verbatim>\<open>robust_get\<close> catches
  \<^verbatim>\<open>requests.exceptions.RequestException\<close> only, so the two kinds of exception are kept apart.
  The string is the exception's description. The network is a parameter of the model.
\<close>

datatype get_result =
    Returns response
  | RaisesRequestException string
  | RaisesOther string

type_synonym network = "string \<Rightarrow> int \<Rightarrow> get_result"

text \<open>
  A finding is a Python dict with string keys and string values; the association list keeps
  the insertion order, which is also the order of the keys in the exported JSON.
\<close>

type_synonym finding = "(string \<times> string) list"

fun getitem :: "finding \<Rightarrow> string \<Rightarrow> string option" where
  "getitem [] k = None"
| "getitem ((k', v) # d) k = (if k' = k then Some v else getitem d k)"

fun setitem :: "finding \<Rightarrow> string \<Rightarrow> string \<Rightarrow> finding" where
  "setitem [] k v = [(k, v)]"
| "setitem ((k', v') # d) k v = (if k' = k then (k, v) # d else (k', v') # setitem d k v)"

text \<open>
  The observable effects, in the order they happen: the HTTP requests sent, the lines
  printed, and the file written by \<^verbatim>\<open>json.dump\<close>.
\<close>

datatype event =
    HttpGet string int
  | PrintGetFailed string string
  | PrintScanningPaths string
  | PrintExposed string
  | PrintScanningCVEs
  | PrintLikelyPresent string string
  | PrintKeywordNotFound string string
  | PrintPossiblyDetected string string
  | PrintNotDetectedHTTP string string int
  | PrintScanFailed string string
  | JsonDump string "finding list"
  | PrintJsonWritten string
  | PrintDone
  | PrintFindingsHeader
  | PrintFinding finding

record meta =
  path :: string
  keyword :: "string option"

definition CVE_PATHS :: "(string \<times> meta) list" where
  "CVE_PATHS =
    [(''CVE-2017-5638'', \<lparr>path = ''/struts2-showcase/index.action'', keyword = Some ''Apache''\<rparr>),
     (''CVE-2019-19781'', \<lparr>path = ''/vpn/../vpns/'', keyword = None\<rparr>),
     (''CVE-2021-41773'',
        \<lparr>path = ''/cgi-bin/.%2e/%2e%2e/%2e%2e/%2e%2e/etc/passwd'', keyword = Some ''root:''\<rparr>)]"

definition COMMON_PATHS :: "string list" where
  "COMMON_PATHS =
    [''/admin'', ''/login'', ''/.git'', ''/.env'', ''/config'', ''/phpinfo.php'', ''/test'',
     ''/backup'', ''/.DS_Store'']"

record scanner =
  target :: string
  timeout :: int
  threads :: int
  findings :: "finding list"
  integration_output :: "string option"

section \<open>Strings\<close>

text \<open>\<^verbatim>\<open>str.rstrip('/')\<close>: drops every trailing \<^verbatim>\<open>/\<close>.\<close>

definition rstrip_slash :: "string \<Rightarrow> string" where
  "rstrip_slash s = rev (dropWhile (\<lambda>c. c = CHR ''/'') (rev s))"

text \<open>\<^verbatim>\<open>k in s\<close> on strings: whether \<^verbatim>\<open>k\<close> occurs in \<^verbatim>\<open>s\<close> as a contiguous run.\<close>

fun startswith :: "string \<Rightarrow> string \<Rightarrow> bool" where
  "startswith s [] = True"
| "startswith [] (k # ks) = False"
| "startswith (c # cs) (k # ks) = (c = k \<and> startswith cs ks)"

fun str_in :: "string \<Rightarrow> string \<Rightarrow> bool" where
  "str_in k [] = (k = [])"
| "str_in k (c # cs) = (startswith (c # cs) k \<or> str_in k cs)"

text \<open>Truth value of \<^verbatim>\<open>meta['keyword']\<close>: \<^verbatim>\<open>None\<close> and the empty string are false.\<close>

definition truthy_keyword :: "string option \<Rightarrow> bool" where
  "truthy_keyword k = (case k of None \<Rightarrow> False | Some w \<Rightarrow> w \<noteq> [])"

section \<open>The HTTP probe\<close>

text \<open>
  \<^verbatim>\<open>robust_get(url, timeout)\<close>. The result is what the call gives back (\<open>Inl\<close>: an exception
  that leaves the function, \<open>Inr\<close>: the returned value, \<^verbatim>\<open>None\<close> or the response) and the
  events of the call.
\<close>

definition robust_get :: "network \<Rightarrow> string \<Rightarrow> int \<Rightarrow> (string + response option) \<times> event list" where
  "robust_get net url tmo =
     (case net url tmo of
        Returns resp \<Rightarrow> (Inr (Some resp), [HttpGet url tmo])
      | RaisesRequestException e \<Rightarrow> (Inr None, [HttpGet url tmo, PrintGetFailed url e])
      | RaisesOther e \<Rightarrow> (Inl e, [HttpGet url tmo]))"

section \<open>The constructor\<close>

definition WebVulnScanner :: "string \<Rightarrow> int \<Rightarrow> int \<Rightarrow> string option \<Rightarrow> scanner" where
  "WebVulnScanner tgt tmo thr out =
     \<lparr>target = rstrip_slash tgt, timeout = tmo, threads = thr, findings = [],
      integration_output = out\<rparr>"

section \<open>The CVE-signature phase\<close>

text \<open>
  One iteration of the loop of \<^verbatim>\<open>check_cve_signatures\<close>, for the table entry \<open>(cve, m)\<close>.
  It gives the scanner after the iteration, the events of the iteration, and either the
  exception that left \<^verbatim>\<open>robust_get\<close> or the local dict \<^verbatim>\<open>finding\<close> as it is at the end of
  the iteration.
\<close>

definition cve_task :: "network \<Rightarrow> scanner \<Rightarrow> string \<times> meta \<Rightarrow> scanner \<times> event list \<times> (string + finding)" where
  "cve_task net s t =
     (let cve = fst t; m = snd t;
          url = target s @ path m;
          (r, ev) = robust_get net url (timeout s)
      in case r of
           Inl e \<Rightarrow> (s, ev, Inl e)
         | Inr resp \<Rightarrow>
            (let finding = [(''type'', ''cve_test''), (''cve'', cve), (''url'', url),
                            (''status'', ''not_detected''), (''details'', '''')]
             in if truthy_resp resp \<and> status_code (the resp) = 200 then
                  (if truthy_keyword (keyword m) then
                     (if str_in (the (keyword m)) (resp_text (the resp)) then
                        (let finding1 = setitem finding ''status'' ''likely_present'';
                             finding2 = setitem finding1 ''details'' ''Keyword matched in response.''
                         in (s\<lparr>findings := findings s @ [finding2]\<rparr>,
                             ev @ [PrintLikelyPresent cve url], Inr finding2))
                      else (s, ev @ [PrintKeywordNotFound cve url], Inr finding))
                   else
                     (let finding1 = setitem finding ''status'' ''possibly_detected''
                      in (s\<lparr>findings := findings s @ [finding1]\<rparr>,
                          ev @ [PrintPossiblyDetected cve url], Inr finding1)))
                else if truthy_resp resp then
                  (s, ev @ [PrintNotDetectedHTTP cve url (status_code (the resp))], Inr finding)
                else (s, ev @ [PrintScanFailed cve url], Inr finding)))"

text \<open>
  The \<^verbatim>\<open>for\<close> loop over the table: an exception that leaves an iteration ends the loop, and
  the scanner keeps what was appended before.
\<close>

fun cve_loop :: "network \<Rightarrow> (string \<times> meta) list \<Rightarrow> scanner \<Rightarrow> scanner \<times> event list \<times> string option" where
  "cve_loop net [] s = (s, [], None)"
| "cve_loop net (t # ts) s =
     (case cve_task net s t of
        (s1, ev, Inl e) \<Rightarrow> (s1, ev, Some e)
      | (s1, ev, Inr f) \<Rightarrow>
          (case cve_loop net ts s1 of (s2, ev2, r) \<Rightarrow> (s2, ev @ ev2, r)))"

definition check_cve_signatures :: "network \<Rightarrow> scanner \<Rightarrow> scanner \<times> event list \<times> string option" where
  "check_cve_signatures net s =
     (case cve_loop net CVE_PATHS s of (s', ev, r) \<Rightarrow> (s', PrintScanningCVEs # ev, r))"

text \<open>The classification of a CVE task: the \<^verbatim>\<open>status\<close> entry of its \<^verbatim>\<open>finding\<close> dict.\<close>

definition classification :: "network \<Rightarrow> scanner \<Rightarrow> string \<times> meta \<Rightarrow> string option" where
  "classification net s t =
     (case cve_task net s t of (_, _, Inl e) \<Rightarrow> None | (_, _, Inr f) \<Rightarrow> getitem f ''status'')"

section \<open>The common-paths phase: a pool of worker threads\<close>

text \<open>
  \<^verbatim>\<open>check_common_paths\<close> starts \<^verbatim>\<open>self.threads\<close> threads that run \<^verbatim>\<open>worker\<close> and share the
  queue \<^verbatim>\<open>pathq\<close> and the list \<^verbatim>\<open>results\<close>. The model is an interleaving of atomic steps: one
  step is one operation on the shared state (\<^verbatim>\<open>get\<close>, \<^verbatim>\<open>put\<close>, \<^verbatim>\<open>task_done\<close>, \<^verbatim>\<open>join\<close>,
  \<^verbatim>\<open>append\<close>, one call of \<^verbatim>\<open>robust_get\<close>) by one thread. \<^verbatim>\<open>queue.Queue\<close> is the standard
  library's thread-safe queue: \<^verbatim>\<open>get\<close> blocks while the queue is empty, \<^verbatim>\<open>put\<close> adds one to
  the count of unfinished tasks, \<^verbatim>\<open>task_done\<close> takes one off (and raises \<^verbatim>\<open>ValueError\<close> when
  the count is already zero), \<^verbatim>\<open>join\<close> blocks until the count is zero.

  Where a worker thread stands in its loop:
  \<^item> \<open>AtGet\<close>: before \<^verbatim>\<open>path = pathq.get()\<close>;
  \<^item> \<open>Got x\<close>: \<^verbatim>\<open>path\<close> is \<open>x\<close>, before \<^verbatim>\<open>if path is None\<close>;
  \<^item> \<open>Probed url resp\<close>: after \<^verbatim>\<open>resp = robust_get(url, self.timeout)\<close>;
  \<^item> \<open>AtTaskDone\<close>: before \<^verbatim>\<open>pathq.task_done()\<close>;
  \<^item> \<open>Exited\<close>: the loop was left through \<^verbatim>\<open>break\<close>;
  \<^item> \<open>Died e\<close>: the exception \<open>e\<close> ended the thread.
\<close>

datatype wstate =
    AtGet
  | Got "string option"
  | Probed string "response option"
  | AtTaskDone
  | Exited
  | Died string

text \<open>
  Where the main thread stands in \<^verbatim>\<open>check_common_paths\<close>, after it has filled the queue:
  \<open>Starting k\<close> in the loop that starts the threads, \<open>k\<close> of them started; \<open>JoinQueue\<close> at
  \<^verbatim>\<open>pathq.join()\<close>; \<open>Stopping k\<close> in the loop that puts the \<^verbatim>\<open>None\<close> sentinels, \<open>k\<close> of them
  put; \<open>JoinThreads k\<close> in the loop of \<^verbatim>\<open>t.join()\<close>, \<open>k\<close> threads joined; \<open>Extend\<close> before
  \<^verbatim>\<open>self.findings.extend(results)\<close>; \<open>Finished\<close> after it.
\<close>

datatype mstate =
    Starting nat
  | JoinQueue
  | Stopping nat
  | JoinThreads nat
  | Extend
  | Finished

record pool =
  scan :: scanner
  pathq :: "string option list"
  unfinished_tasks :: nat
  workers :: "wstate list"
  results :: "finding list"
  trace :: "event list"
  pc :: mstate

datatype tid = MainThread | Worker nat

text \<open>
  The state when the first thread is about to be started: the header line is printed, and
  every path of \<^verbatim>\<open>COMMON_PATHS\<close> has been put on the queue, in order.
\<close>

definition start_pool :: "scanner \<Rightarrow> pool" where
  "start_pool s =
     \<lparr>scan = s, pathq = map Some COMMON_PATHS, unfinished_tasks = length COMMON_PATHS,
      workers = [], results = [], trace = [PrintScanningPaths (target s)], pc = Starting 0\<rparr>"

text \<open>
  \<^verbatim>\<open>if resp and resp.status_code == 200\<close>: what the worker appends to \<^verbatim>\<open>results\<close>, and what
  it prints.
\<close>

definition exposed :: "string \<Rightarrow> response option \<Rightarrow> finding list" where
  "exposed url resp =
     (if truthy_resp resp \<and> status_code (the resp) = 200
      then [[(''type'', ''exposed_path''), (''url'', url)]] else [])"

definition exposed_print :: "string \<Rightarrow> response option \<Rightarrow> event list" where
  "exposed_print url resp =
     (if truthy_resp resp \<and> status_code (the resp) = 200 then [PrintExposed url] else [])"

text \<open>
  One step of worker \<open>i\<close>; \<open>None\<close> when the thread cannot move (it is blocked in
  \<^verbatim>\<open>get\<close>, it has ended, or it was never started).
\<close>

definition worker_step :: "network \<Rightarrow> pool \<Rightarrow> nat \<Rightarrow> pool option" where
  "worker_step net p i =
     (if i < length (workers p) then
        (case workers p ! i of
           AtGet \<Rightarrow>
             (case pathq p of
                [] \<Rightarrow> None
              | x # q \<Rightarrow> Some (p\<lparr>pathq := q, workers := (workers p)[i := Got x]\<rparr>))
         | Got None \<Rightarrow> Some (p\<lparr>workers := (workers p)[i := Exited]\<rparr>)
         | Got (Some pth) \<Rightarrow>
             (let url = target (scan p) @ pth;
                  (r, ev) = robust_get net url (timeout (scan p))
              in case r of
                   Inl e \<Rightarrow> Some (p\<lparr>workers := (workers p)[i := Died e], trace := trace p @ ev\<rparr>)
                 | Inr resp \<Rightarrow>
                     Some (p\<lparr>workers := (workers p)[i := Probed url resp], trace := trace p @ ev\<rparr>))
         | Probed url resp \<Rightarrow>
             Some (p\<lparr>workers := (workers p)[i := AtTaskDone],
                     results := results p @ exposed url resp,
                     trace := trace p @ exposed_print url resp\<rparr>)
         | AtTaskDone \<Rightarrow>
             (if unfinished_tasks p = 0
              then Some (p\<lparr>workers := (workers p)[i := Died ''ValueError'']\<rparr>)
              else Some (p\<lparr>workers := (workers p)[i := AtGet],
                           unfinished_tasks := unfinished_tasks p - 1\<rparr>))
         | Exited \<Rightarrow> None
         | Died e \<Rightarrow> None)
      else None)"

text \<open>\<^verbatim>\<open>t.join()\<close> returns once the thread has ended, by \<^verbatim>\<open>break\<close> or by an exception.\<close>

definition stopped :: "wstate \<Rightarrow> bool" where
  "stopped w = (case w of Exited \<Rightarrow> True | Died e \<Rightarrow> True | _ \<Rightarrow> False)"

text \<open>One step of the main thread; \<open>None\<close> when it is blocked in a \<^verbatim>\<open>join\<close> or has finished.\<close>

definition main_step :: "pool \<Rightarrow> pool option" where
  "main_step p =
     (case pc p of
        Starting k \<Rightarrow>
          (if int k < threads (scan p)
           then Some (p\<lparr>workers := workers p @ [AtGet], pc := Starting (Suc k)\<rparr>)
           else Some (p\<lparr>pc := JoinQueue\<rparr>))
      | JoinQueue \<Rightarrow>
          (if unfinished_tasks p = 0 then Some (p\<lparr>pc := Stopping 0\<rparr>) else None)
      | Stopping k \<Rightarrow>
          (if int k < threads (scan p)
           then Some (p\<lparr>pathq := pathq p @ [None], unfinished_tasks := Suc (unfinished_tasks p),
                        pc := Stopping (Suc k)\<rparr>)
           else Some (p\<lparr>pc := JoinThreads 0\<rparr>))
      | JoinThreads k \<Rightarrow>
          (if k < length (workers p)
           then (if stopped (workers p ! k) then Some (p\<lparr>pc := JoinThreads (Suc k)\<rparr>) else None)
           else Some (p\<lparr>pc := Extend\<rparr>))
      | Extend \<Rightarrow>
          Some (p\<lparr>scan := (scan p)\<lparr>findings := findings (scan p) @ results p\<rparr>, pc := Finished\<rparr>)
      | Finished \<Rightarrow> None)"

fun step :: "network \<Rightarrow> pool \<Rightarrow> tid \<Rightarrow> pool option" where
  "step net p MainThread = main_step p"
| "step net p (Worker i) = worker_step net p i"

text \<open>
  A schedule names the thread that is given the next turn; a thread that cannot move when
  its turn comes leaves the state as it is.
\<close>

fun exec :: "network \<Rightarrow> tid list \<Rightarrow> pool \<Rightarrow> pool" where
  "exec net [] p = p"
| "exec net (t # ts) p = exec net ts (case step net p t of None \<Rightarrow> p | Some p' \<Rightarrow> p')"

text \<open>
  \<^verbatim>\<open>check_common_paths\<close> under a schedule: the scanner and the events when the main thread
  has returned, \<open>None\<close> when it has not returned by the end of the schedule.
\<close>

definition check_common_paths :: "network \<Rightarrow> tid list \<Rightarrow> scanner \<Rightarrow> (scanner \<times> event list) option" where
  "check_common_paths net sched s =
     (let p = exec net sched (start_pool s)
      in if pc p = Finished then Some (scan p, trace p) else None)"

section \<open>Export and the whole run\<close>

text \<open>
  \<^verbatim>\<open>save_results_json\<close>: when \<^verbatim>\<open>self.integration_output\<close> is set (not \<^verbatim>\<open>None\<close> and not the
  empty string), \<^verbatim>\<open>json.dump\<close> writes \<^verbatim>\<open>self.findings\<close> to that file.
\<close>

definition truthy_output :: "string option \<Rightarrow> bool" where
  "truthy_output out = (case out of None \<Rightarrow> False | Some f \<Rightarrow> f \<noteq> [])"

definition save_results_json :: "scanner \<Rightarrow> event list" where
  "save_results_json s =
     (if truthy_output (integration_output s)
      then [JsonDump (the (integration_output s)) (findings s),
            PrintJsonWritten (the (integration_output s))]
      else [])"

text \<open>
  \<^verbatim>\<open>run\<close>: the two phases, the export, the final report. \<open>None\<close> when the common-paths
  phase has not returned by the end of the schedule; otherwise the scanner, the events,
  and the exception that ended the run, if one did.
\<close>

definition run :: "network \<Rightarrow> tid list \<Rightarrow> scanner \<Rightarrow> (scanner \<times> event list \<times> string option) option" where
  "run net sched s =
     (case check_common_paths net sched s of
        None \<Rightarrow> None
      | Some (s1, ev1) \<Rightarrow>
          (case check_cve_signatures net s1 of
             (s2, ev2, Some e) \<Rightarrow> Some (s2, ev1 @ ev2, Some e)
           | (s2, ev2, None) \<Rightarrow>
               Some (s2,
                     ev1 @ ev2 @ save_results_json s2 @ [PrintDone, PrintFindingsHeader]
                       @ map PrintFinding (findings s2),
                     None)))"

section \<open>The classification policy of the common-paths phase, in the words of the specification\<close>

text \<open>
  A path counts when the request for \<^verbatim>\<open>target + path\<close> returns a response with status 200; the
  finding recorded for it has the type \<^verbatim>\<open>exposed_path\<close> and that URL.
\<close>

definition status_200 :: "network \<Rightarrow> scanner \<Rightarrow> string \<Rightarrow> bool" where
  "status_200 net s pth =
     (case net (target s @ pth) (timeout s) of Returns r \<Rightarrow> status_code r = 200 | _ \<Rightarrow> False)"

definition exposed_path_finding :: "scanner \<Rightarrow> string \<Rightarrow> finding" where
  "exposed_path_finding s pth = [(''type'', ''exposed_path''), (''url'', target s @ pth)]"

section \<open>Vocabulary for the statements about findings and events\<close>

text \<open>
  \<open>detected\<close>: a finding of type \<^verbatim>\<open>cve_test\<close> whose status is \<^verbatim>\<open>likely_present\<close> or
  \<^verbatim>\<open>possibly_detected\<close>. \<open>is_dump\<close>: the event of \<^verbatim>\<open>json.dump\<close>. \<open>cve_req\<close>: the request of an
  entry of \<^verbatim>\<open>CVE_PATHS\<close>. \<open>same_settings\<close>: two scanners that differ at most in their findings.
\<close>

definition detected :: "finding \<Rightarrow> bool" where
  "detected f =
     (getitem f ''type'' = Some ''cve_test'' \<and>
      (getitem f ''status'' = Some ''likely_present''
       \<or> getitem f ''status'' = Some ''possibly_detected''))"

fun is_dump :: "event \<Rightarrow> bool" where
  "is_dump (JsonDump file fs) = True"
| "is_dump e = False"

definition cve_req :: "scanner \<Rightarrow> string \<times> meta \<Rightarrow> event" where
  "cve_req s t = HttpGet (target s @ path (snd t)) (timeout s)"

definition same_settings :: "scanner \<Rightarrow> scanner \<Rightarrow> bool" where
  "same_settings s s' =
     (target s' = target s \<and> timeout s' = timeout s \<and> threads s' = threads s
      \<and> integration_output s' = integration_output s)"

section \<open>Reachable states of the pool and what stays true in them\<close>

text \<open>The states the pool can be in, whatever the order in which the threads take their turns.\<close>

inductive reachable :: "network \<Rightarrow> scanner \<Rightarrow> pool \<Rightarrow> bool" for net :: network and s :: scanner where
  reachable_start: "reachable net s (start_pool s)"
| reachable_step: "reachable net s p \<Longrightarrow> step net p t = Some p' \<Longrightarrow> reachable net s p'"

text \<open>
  The paths waiting in the queue, and the number of \<^verbatim>\<open>None\<close> sentinels waiting in it.
\<close>

fun qtasks :: "string option list \<Rightarrow> string list" where
  "qtasks [] = []"
| "qtasks (None # q) = qtasks q"
| "qtasks (Some x # q) = x # qtasks q"

fun qstops :: "string option list \<Rightarrow> nat" where
  "qstops [] = 0"
| "qstops (None # q) = Suc (qstops q)"
| "qstops (Some x # q) = qstops q"

text \<open>
  \<open>busy\<close> counts a worker that has taken a path from the queue and has not yet called
  \<^verbatim>\<open>task_done\<close> for it; \<open>leaving\<close> counts a worker that has taken a sentinel; \<open>sent\<close> is
  the number of sentinels the main thread has put; \<open>joined\<close> holds once \<^verbatim>\<open>pathq.join()\<close> has
  returned.
\<close>

fun busy :: "wstate \<Rightarrow> nat" where
  "busy (Got (Some x)) = 1"
| "busy (Probed url resp) = 1"
| "busy AtTaskDone = 1"
| "busy (Died e) = 1"
| "busy w = 0"

fun leaving :: "wstate \<Rightarrow> nat" where
  "leaving (Got None) = 1"
| "leaving Exited = 1"
| "leaving w = 0"

fun sent :: "scanner \<Rightarrow> mstate \<Rightarrow> nat" where
  "sent s (Starting k) = 0"
| "sent s JoinQueue = 0"
| "sent s (Stopping k) = k"
| "sent s m = nat (threads s)"

fun joined :: "mstate \<Rightarrow> bool" where
  "joined (Starting k) = False"
| "joined JoinQueue = False"
| "joined m = True"

text \<open>The pool never changes the scanner, except for the final \<^verbatim>\<open>extend\<close>.\<close>

definition same_config :: "scanner \<Rightarrow> pool \<Rightarrow> bool" where
  "same_config s p =
     (target (scan p) = target s \<and> timeout (scan p) = timeout s \<and> threads (scan p) = threads s
      \<and> integration_output (scan p) = integration_output s
      \<and> (pc p \<noteq> Finished \<longrightarrow> findings (scan p) = findings s))"

text \<open>The threads already joined have ended.\<close>

definition joined_inv :: "pool \<Rightarrow> bool" where
  "joined_inv p =
     (case pc p of
        JoinThreads k \<Rightarrow> (\<forall>j < k. j < length (workers p) \<longrightarrow> stopped (workers p ! j))
      | Extend \<Rightarrow> (\<forall>j < length (workers p). stopped (workers p ! j))
      | Finished \<Rightarrow> (\<forall>j < length (workers p). stopped (workers p ! j))
      | _ \<Rightarrow> True)"

text \<open>After \<^verbatim>\<open>extend\<close>, the findings are the old ones followed by \<^verbatim>\<open>results\<close>.\<close>

definition extended_inv :: "scanner \<Rightarrow> pool \<Rightarrow> bool" where
  "extended_inv s p = (pc p = Finished \<longrightarrow> findings (scan p) = findings s @ results p)"

text \<open>The number of threads started.\<close>

definition started_inv :: "scanner \<Rightarrow> pool \<Rightarrow> bool" where
  "started_inv s p =
     (case pc p of
        Starting k \<Rightarrow> length (workers p) = k \<and> k \<le> nat (threads s)
      | Stopping k \<Rightarrow> length (workers p) = nat (threads s) \<and> k \<le> nat (threads s)
      | _ \<Rightarrow> length (workers p) = nat (threads s))"

text \<open>
  The queue's count of unfinished tasks: the paths waiting, the paths taken and not yet
  marked done, and the sentinels put. Every sentinel put is waiting or was taken.
\<close>

definition count_inv :: "scanner \<Rightarrow> pool \<Rightarrow> bool" where
  "count_inv s p =
     (unfinished_tasks p = length (qtasks (pathq p)) + sum_list (map busy (workers p)) + sent s (pc p)
      \<and> sent s (pc p) = qstops (pathq p) + sum_list (map leaving (workers p)))"

text \<open>Once \<^verbatim>\<open>pathq.join()\<close> has returned, no path is waiting and no path is being worked on.\<close>

definition drained_inv :: "pool \<Rightarrow> bool" where
  "drained_inv p = (joined (pc p) \<longrightarrow> qtasks (pathq p) = [] \<and> sum_list (map busy (workers p)) = 0)"

text \<open>
  The request of a path task, and the accounting of requests: the requests still to be
  sent (for the paths waiting in the queue and the paths just taken) together with the
  requests sent so far are, as a multiset, one request for each path of \<^verbatim>\<open>COMMON_PATHS\<close>.
\<close>

definition req :: "scanner \<Rightarrow> string \<Rightarrow> event" where
  "req s pth = HttpGet (target s @ pth) (timeout s)"

fun is_get :: "event \<Rightarrow> bool" where
  "is_get (HttpGet url tmo) = True"
| "is_get e = False"

fun owed_req :: "scanner \<Rightarrow> wstate \<Rightarrow> event multiset" where
  "owed_req s (Got (Some pth)) = {#req s pth#}"
| "owed_req s w = {#}"

definition requests_inv :: "scanner \<Rightarrow> pool \<Rightarrow> bool" where
  "requests_inv s p =
     (mset (map (req s) (qtasks (pathq p))) + sum_list (map (owed_req s) (workers p))
        + mset (filter is_get (trace p))
      = mset (map (req s) COMMON_PATHS))"

text \<open>
  What the task of a path appends to \<^verbatim>\<open>results\<close>, and the accounting of results in the same
  way.
\<close>

definition expected :: "network \<Rightarrow> scanner \<Rightarrow> string \<Rightarrow> finding list" where
  "expected net s pth =
     (case fst (robust_get net (target s @ pth) (timeout s)) of
        Inl e \<Rightarrow> []
      | Inr resp \<Rightarrow> exposed (target s @ pth) resp)"

fun owed_res :: "network \<Rightarrow> scanner \<Rightarrow> wstate \<Rightarrow> finding multiset" where
  "owed_res net s (Got (Some pth)) = mset (expected net s pth)"
| "owed_res net s (Probed url resp) = mset (exposed url resp)"
| "owed_res net s w = {#}"

definition results_inv :: "network \<Rightarrow> scanner \<Rightarrow> pool \<Rightarrow> bool" where
  "results_inv net s p =
     (mset (concat (map (expected net s) (qtasks (pathq p))))
        + sum_list (map (owed_res net s) (workers p)) + mset (results p)
      = mset (concat (map (expected net s) COMMON_PATHS)))"

text \<open>All of the above together.\<close>

definition pool_inv :: "network \<Rightarrow> scanner \<Rightarrow> pool \<Rightarrow> bool" where
  "pool_inv net s p =
     (same_config s p \<and> started_inv s p \<and> joined_inv p \<and> extended_inv s p \<and> count_inv s p
      \<and> drained_inv p \<and> requests_inv s p \<and> results_inv net s p)"

text \<open>
  The network raises nothing but \<^verbatim>\<open>RequestException\<close> for the requests of the common paths.
\<close>

definition no_other :: "network \<Rightarrow> scanner \<Rightarrow> bool" where
  "no_other net s =
     (\<forall>pth \<in> set COMMON_PATHS. \<forall>e. net (target s @ pth) (timeout s) \<noteq> RaisesOther e)"

text \<open>
  With such a network no worker thread dies, and every path a worker holds comes from
  \<^verbatim>\<open>COMMON_PATHS\<close>.
\<close>

fun fit :: "wstate \<Rightarrow> bool" where
  "fit (Got (Some pth)) = (pth \<in> set COMMON_PATHS)"
| "fit (Died e) = False"
| "fit w = True"

definition healthy_inv :: "pool \<Rightarrow> bool" where
  "healthy_inv p = (set (qtasks (pathq p)) \<subseteq> set COMMON_PATHS \<and> (\<forall>w \<in> set (workers p). fit w))"

text \<open>
  A bound on the number of steps the pool can still take: every step of every thread makes
  it smaller.
\<close>

fun wweight :: "wstate \<Rightarrow> nat" where
  "wweight AtGet = 1"
| "wweight (Got x) = 4"
| "wweight (Probed url resp) = 3"
| "wweight AtTaskDone = 2"
| "wweight Exited = 0"
| "wweight (Died e) = 0"

fun mweight :: "nat \<Rightarrow> nat \<Rightarrow> mstate \<Rightarrow> nat" where
  "mweight n l (Starting k) = 5 + l + 5 * n + 3 * (n - k)"
| "mweight n l JoinQueue = 4 + l + 5 * n"
| "mweight n l (Stopping k) = 3 + l + 5 * (n - k)"
| "mweight n l (JoinThreads k) = 2 + (l - k)"
| "mweight n l Extend = 1"
| "mweight n l Finished = 0"

definition steps_left :: "pool \<Rightarrow> nat" where
  "steps_left p =
     mweight (nat (threads (scan p))) (length (workers p)) (pc p)
       + sum_list (map wweight (workers p)) + 4 * length (pathq p)"

text \<open>\<open>dead\<close> counts a worker thread that an exception has ended.\<close>

fun dead :: "wstate \<Rightarrow> nat" where
  "dead (Died e) = 1"
| "dead w = 0"

section \<open>The export file: the text written by \<^verbatim>\<open>json.dump\<close>\<close>

text \<open>
  \<^verbatim>\<open>json.dump(self.findings, f, indent=2)\<close> is the encoder of Python's standard library with
  its defaults. A string is written between double quotes, with the quote, the backslash
  and every character outside the printable ASCII range escaped (\<^verbatim>\<open>ensure_ascii\<close>): the
  short escapes for backspace, form feed, line feed, carriage return and tab, and four
  hexadecimal digits in lower case otherwise. With an indent, the item separator is a comma,
  the key separator a colon and a blank, every element and every member starts on a new
  line, indented by two blanks for each level of nesting, and the closing bracket is on a
  line of its own; an empty list is \<^verbatim>\<open>[]\<close> and an empty dict \<^verbatim>\<open>{}\<close>. A string of this model is
  a list of 8-bit characters, so the first two hexadecimal digits of an escape are zero.
\<close>

abbreviation dq :: char where "dq \<equiv> CHR 0x22"
abbreviation bs :: char where "bs \<equiv> CHR 0x5C"

definition hexdigit :: "nat \<Rightarrow> char" where
  "hexdigit n = (if n < 10 then char_of (48 + n) else char_of (87 + n))"

definition escape_char :: "char \<Rightarrow> string" where
  "escape_char c =
     (if c = bs then [bs, bs]
      else if c = dq then [bs, dq]
      else if c = CHR 0x08 then [bs, CHR ''b'']
      else if c = CHR 0x0C then [bs, CHR ''f'']
      else if c = CHR 0x0A then [bs, CHR ''n'']
      else if c = CHR 0x0D then [bs, CHR ''r'']
      else if c = CHR 0x09 then [bs, CHR ''t'']
      else if 32 \<le> (of_char c :: nat) \<and> (of_char c :: nat) \<le> 126 then [c]
      else [bs, CHR ''u'', hexdigit ((of_char c :: nat) div 4096 mod 16),
            hexdigit ((of_char c :: nat) div 256 mod 16),
            hexdigit ((of_char c :: nat) div 16 mod 16), hexdigit ((of_char c :: nat) mod 16)])"

definition encode_basestring_ascii :: "string \<Rightarrow> string" where
  "encode_basestring_ascii s = [dq] @ concat (map escape_char s) @ [dq]"

definition newline_indent :: "nat \<Rightarrow> string" where
  "newline_indent level = CHR 0x0A # replicate (2 * level) CHR '' ''"

fun join :: "string \<Rightarrow> string list \<Rightarrow> string" where
  "join sep [] = []"
| "join sep [x] = x"
| "join sep (x # y # ys) = x @ sep @ join sep (y # ys)"

definition encode_item :: "string \<times> string \<Rightarrow> string" where
  "encode_item kv = encode_basestring_ascii (fst kv) @ '': '' @ encode_basestring_ascii (snd kv)"

definition iterencode_dict :: "nat \<Rightarrow> finding \<Rightarrow> string" where
  "iterencode_dict level dct =
     (if dct = [] then ''{}''
      else ''{'' @ newline_indent (level + 1)
             @ join ('','' @ newline_indent (level + 1)) (map encode_item dct)
             @ newline_indent level @ ''}'')"

definition iterencode_list :: "nat \<Rightarrow> finding list \<Rightarrow> string" where
  "iterencode_list level lst =
     (if lst = [] then ''[]''
      else ''['' @ newline_indent (level + 1)
             @ join ('','' @ newline_indent (level + 1)) (map (iterencode_dict (level + 1)) lst)
             @ newline_indent level @ '']'')"

definition json_dumps :: "finding list \<Rightarrow> string" where
  "json_dumps fs = iterencode_list 0 fs"

section \<open>Reading the export file back: a parser of JSON texts\<close>

text \<open>
  The source never reads the file back; the parser here is the one of Python's standard
  library (\<^verbatim>\<open>json.loads\<close>: \<^verbatim>\<open>scanstring\<close>, \<^verbatim>\<open>JSONObject\<close>, \<^verbatim>\<open>JSONArray\<close>, \<^verbatim>\<open>scan_once\<close>, \<^verbatim>\<open>decode\<close>),
  which follows the JSON grammar. White space is blank, tab, line feed and carriage return.
  A string ends at the first unescaped quote; a control character in it is an error, and so
  is an escape that is not one of the nine of the grammar. An object becomes a dict: a
  repeated key keeps its first position and its last value. A number is kept as its text.
  Two limits of the model: an escape of four hexadecimal digits above \<^verbatim>\<open>00ff\<close> names a
  character outside the 8-bit characters and is not parsed; the recursion is bounded by
  fuel, which \<open>json_loads\<close> sets from the length of the text. \<open>None\<close> is a text that does
  not parse.
\<close>

datatype json =
    JNull
  | JBool bool
  | JNumber string
  | JString string
  | JArray "json list"
  | JObject "(string \<times> json) list"

definition is_ws :: "char \<Rightarrow> bool" where
  "is_ws c = (c = CHR '' '' \<or> c = CHR 0x09 \<or> c = CHR 0x0A \<or> c = CHR 0x0D)"

definition skip_ws :: "string \<Rightarrow> string" where
  "skip_ws s = dropWhile is_ws s"

definition is_digit :: "char \<Rightarrow> bool" where
  "is_digit c = (48 \<le> (of_char c :: nat) \<and> (of_char c :: nat) \<le> 57)"

definition hexval :: "char \<Rightarrow> nat option" where
  "hexval c =
     (if is_digit c then Some (of_char c - 48)
      else if 97 \<le> (of_char c :: nat) \<and> (of_char c :: nat) \<le> 102 then Some (of_char c - 87)
      else if 65 \<le> (of_char c :: nat) \<and> (of_char c :: nat) \<le> 70 then Some (of_char c - 55)
      else None)"

definition decode_uXXXX :: "char \<Rightarrow> char \<Rightarrow> char \<Rightarrow> char \<Rightarrow> nat option" where
  "decode_uXXXX a b c d =
     (case (hexval a, hexval b, hexval c, hexval d) of
        (Some w, Some x, Some y, Some z) \<Rightarrow> Some (((w * 16 + x) * 16 + y) * 16 + z)
      | _ \<Rightarrow> None)"

definition unescape :: "char \<Rightarrow> char option" where
  "unescape e =
     (if e = dq then Some dq
      else if e = bs then Some bs
      else if e = CHR ''/'' then Some CHR ''/''
      else if e = CHR ''b'' then Some (CHR 0x08)
      else if e = CHR ''f'' then Some (CHR 0x0C)
      else if e = CHR ''n'' then Some (CHR 0x0A)
      else if e = CHR ''r'' then Some (CHR 0x0D)
      else if e = CHR ''t'' then Some (CHR 0x09)
      else None)"

fun scanstring :: "string \<Rightarrow> (string \<times> string) option" where
  "scanstring [] = None"
| "scanstring (c # cs) =
     (if c = dq then Some ([], cs)
      else if c = bs then
        (case cs of
           [] \<Rightarrow> None
         | e # r \<Rightarrow>
             if e = CHR ''u'' then
               (case r of
                  a # b # x # y # r' \<Rightarrow>
                    (case decode_uXXXX a b x y of
                       None \<Rightarrow> None
                     | Some n \<Rightarrow>
                         if n < 256 then
                           (case scanstring r' of
                              None \<Rightarrow> None
                            | Some (str, rest) \<Rightarrow> Some (char_of n # str, rest))
                         else None)
                | _ \<Rightarrow> None)
             else
               (case unescape e of
                  None \<Rightarrow> None
                | Some ch \<Rightarrow>
                    (case scanstring r of
                       None \<Rightarrow> None
                     | Some (str, rest) \<Rightarrow> Some (ch # str, rest))))
      else if (of_char c :: nat) < 32 then None
      else (case scanstring cs of
              None \<Rightarrow> None
            | Some (str, rest) \<Rightarrow> Some (c # str, rest)))"

definition scan_int :: "string \<Rightarrow> (string \<times> string) option" where
  "scan_int s =
     (case s of
        [] \<Rightarrow> None
      | c # cs \<Rightarrow>
          if c = CHR ''0'' then Some ([c], cs)
          else if is_digit c then Some (c # takeWhile is_digit cs, dropWhile is_digit cs)
          else None)"

definition scan_frac :: "string \<Rightarrow> string \<times> string" where
  "scan_frac s =
     (case s of
        c # d # ds \<Rightarrow>
          if c = CHR ''.'' \<and> is_digit d
          then (c # takeWhile is_digit (d # ds), dropWhile is_digit (d # ds))
          else ([], s)
      | _ \<Rightarrow> ([], s))"

definition scan_digits1 :: "string \<Rightarrow> string \<Rightarrow> string \<Rightarrow> string \<times> string" where
  "scan_digits1 pre s whole =
     (case s of
        d # ds \<Rightarrow>
          if is_digit d then (pre @ takeWhile is_digit (d # ds), dropWhile is_digit (d # ds))
          else ([], whole)
      | [] \<Rightarrow> ([], whole))"

definition scan_exp :: "string \<Rightarrow> string \<times> string" where
  "scan_exp s =
     (case s of
        e # cs \<Rightarrow>
          if e = CHR ''e'' \<or> e = CHR ''E'' then
            (case cs of
               g # ds \<Rightarrow>
                 if g = CHR ''+'' \<or> g = CHR ''-'' then scan_digits1 [e, g] ds s
                 else scan_digits1 [e] cs s
             | [] \<Rightarrow> ([], s))
          else ([], s)
      | [] \<Rightarrow> ([], s))"

definition scan_number :: "string \<Rightarrow> (string \<times> string) option" where
  "scan_number s =
     (let (sign, s1) = (case s of c # cs \<Rightarrow> if c = CHR ''-'' then ([c], cs) else ([], s)
                                | [] \<Rightarrow> ([], s))
      in case scan_int s1 of
           None \<Rightarrow> None
         | Some (i, s2) \<Rightarrow>
             (let (f, s3) = scan_frac s2; (e, s4) = scan_exp s3
              in Some (sign @ i @ f @ e, s4)))"

definition scan_constant :: "string \<Rightarrow> (json \<times> string) option" where
  "scan_constant s =
     (if startswith s ''null'' then Some (JNull, drop 4 s)
      else if startswith s ''true'' then Some (JBool True, drop 4 s)
      else if startswith s ''false'' then Some (JBool False, drop 5 s)
      else (case scan_number s of
              Some (lexeme, rest) \<Rightarrow> Some (JNumber lexeme, rest)
            | None \<Rightarrow>
                if startswith s ''NaN'' then Some (JNumber ''NaN'', drop 3 s)
                else if startswith s ''Infinity'' then Some (JNumber ''Infinity'', drop 8 s)
                else if startswith s ''-Infinity'' then Some (JNumber ''-Infinity'', drop 9 s)
                else None))"

fun dict_set :: "(string \<times> 'v) list \<Rightarrow> string \<Rightarrow> 'v \<Rightarrow> (string \<times> 'v) list" where
  "dict_set [] k v = [(k, v)]"
| "dict_set ((k', v') # d) k v = (if k' = k then (k, v) # d else (k', v') # dict_set d k v)"

definition dict_of :: "(string \<times> 'v) list \<Rightarrow> (string \<times> 'v) list" where
  "dict_of pairs = foldl (\<lambda>d kv. dict_set d (fst kv) (snd kv)) [] pairs"

fun scan_once :: "nat \<Rightarrow> string \<Rightarrow> (json \<times> string) option"
  and JSONObject :: "nat \<Rightarrow> (string \<times> json) list \<Rightarrow> string \<Rightarrow> (json \<times> string) option"
  and JSONArray :: "nat \<Rightarrow> json list \<Rightarrow> string \<Rightarrow> (json \<times> string) option"
where
  "scan_once 0 s = None"
| "scan_once (Suc n) s =
     (case s of
        [] \<Rightarrow> None
      | c # cs \<Rightarrow>
          if c = dq then
            (case scanstring cs of
               None \<Rightarrow> None
             | Some (str, rest) \<Rightarrow> Some (JString str, rest))
          else if c = CHR ''{'' then
            (case skip_ws cs of
               [] \<Rightarrow> None
             | c' # cs' \<Rightarrow>
                 if c' = CHR ''}'' then Some (JObject [], cs')
                 else if c' = dq then JSONObject n [] cs'
                 else None)
          else if c = CHR ''['' then
            (case skip_ws cs of
               [] \<Rightarrow> None
             | c' # cs' \<Rightarrow>
                 if c' = CHR '']'' then Some (JArray [], cs')
                 else JSONArray n [] (c' # cs'))
          else scan_constant s)"
| "JSONObject 0 pairs s = None"
| "JSONObject (Suc n) pairs s =
     (case scanstring s of
        None \<Rightarrow> None
      | Some (key, s1) \<Rightarrow>
          (case skip_ws s1 of
             [] \<Rightarrow> None
           | c # s2 \<Rightarrow>
               if c = CHR '':'' then
                 (case scan_once n (skip_ws s2) of
                    None \<Rightarrow> None
                  | Some (v, s3) \<Rightarrow>
                      (case skip_ws s3 of
                         [] \<Rightarrow> None
                       | c' # s4 \<Rightarrow>
                           if c' = CHR ''}'' then Some (JObject (dict_of (pairs @ [(key, v)])), s4)
                           else if c' = CHR '','' then
                             (case skip_ws s4 of
                                [] \<Rightarrow> None
                              | c'' # s5 \<Rightarrow>
                                  if c'' = dq then JSONObject n (pairs @ [(key, v)]) s5
                                  else None)
                           else None))
               else None))"
| "JSONArray 0 vals s = None"
| "JSONArray (Suc n) vals s =
     (case scan_once n s of
        None \<Rightarrow> None
      | Some (v, s1) \<Rightarrow>
          (case skip_ws s1 of
             [] \<Rightarrow> None
           | c # s2 \<Rightarrow>
               if c = CHR '']'' then Some (JArray (vals @ [v]), s2)
               else if c = CHR '','' then JSONArray n (vals @ [v]) (skip_ws s2)
               else None))"

definition json_loads :: "string \<Rightarrow> json option" where
  "json_loads s =
     (case scan_once (2 * length s + 2) (skip_ws s) of
        None \<Rightarrow> None
      | Some (v, rest) \<Rightarrow> if skip_ws rest = [] then Some v else None)"

definition json_of_finding :: "finding \<Rightarrow> json" where
  "json_of_finding f = JObject (map (\<lambda>kv. (fst kv, JString (snd kv))) f)"

text \<open>The JSON value of a finding, pair by pair.\<close>

definition jpair :: "string \<times> string \<Rightarrow> string \<times> json" where
  "jpair kv = (fst kv, JString (snd kv))"

text \<open>What follows the opening quote of the key in the text of an item.\<close>

definition item_tail :: "string \<times> string \<Rightarrow> string" where
  "item_tail kv =
     concat (map escape_char (fst kv)) @ dq # CHR '':'' # CHR '' '' # dq
       # concat (map escape_char (snd kv)) @ [dq]"

text \<open>
  The file an event writes and the text it puts there: \<^verbatim>\<open>json.dump(self.findings, f, indent=2)\<close>
  writes the text \<open>json_dumps\<close> of the findings.
\<close>

fun file_written :: "event \<Rightarrow> (string \<times> string) option" where
  "file_written (JsonDump file fs) = Some (file, json_dumps fs)"
| "file_written e = None"

text \<open>
  The Finding JSON record of the specification: the keys are distinct and among \<^verbatim>\<open>type\<close>,
  \<^verbatim>\<open>url\<close>, \<^verbatim>\<open>cve\<close>, \<^verbatim>\<open>status\<close>, \<^verbatim>\<open>details\<close>; \<^verbatim>\<open>type\<close> is \<^verbatim>\<open>exposed_path\<close> or \<^verbatim>\<open>cve_test\<close>; \<^verbatim>\<open>url\<close>
  is there; every value is a string.
\<close>

definition finding_record :: "finding \<Rightarrow> bool" where
  "finding_record f =
     (distinct (map fst f)
      \<and> set (map fst f) \<subseteq> {''type'', ''url'', ''cve'', ''status'', ''details''}
      \<and> (getitem f ''type'' = Some ''exposed_path'' \<or> getitem f ''type'' = Some ''cve_test'')
      \<and> getitem f ''url'' \<noteq> None)"


section \<open>Vocabulary for the order of the phases\<close>

text \<open>
  The events of the common-paths phase and the events of the CVE phase (a request and the
  line about a failed request belong to both). \<open>no_other_cve\<close>: the network raises nothing
  but \<^verbatim>\<open>RequestException\<close> for the requests of the CVE table.
\<close>

fun paths_event :: "event \<Rightarrow> bool" where
  "paths_event (PrintScanningPaths tgt) = True"
| "paths_event (HttpGet url tmo) = True"
| "paths_event (PrintGetFailed url e) = True"
| "paths_event (PrintExposed url) = True"
| "paths_event e = False"

fun cve_event :: "event \<Rightarrow> bool" where
  "cve_event PrintScanningCVEs = True"
| "cve_event (HttpGet url tmo) = True"
| "cve_event (PrintGetFailed url e) = True"
| "cve_event (PrintLikelyPresent cve url) = True"
| "cve_event (PrintKeywordNotFound cve url) = True"
| "cve_event (PrintPossiblyDetected cve url) = True"
| "cve_event (PrintNotDetectedHTTP cve url st) = True"
| "cve_event (PrintScanFailed cve url) = True"
| "cve_event e = False"

definition no_other_cve :: "network \<Rightarrow> scanner \<Rightarrow> bool" where
  "no_other_cve net s =
     (\<forall>t \<in> set CVE_PATHS. \<forall>e. net (target s @ path (snd t)) (timeout s) \<noteq> RaisesOther e)"

section \<open>A concrete network and a concrete scanner\<close>

text \<open>
  A small network used to run the model on concrete inputs: \<^verbatim>\<open>/admin\<close> answers 200, two of
  the CVE paths answer 200 with their keyword in the body, \<^verbatim>\<open>/backup\<close> refuses the connection,
  every other URL answers 404, and a timeout that is not positive makes the call raise
  \<^verbatim>\<open>ValueError\<close>, which is not a \<^verbatim>\<open>RequestException\<close>.
\<close>

definition demo_net :: network where
  "demo_net url tmo =
     (if tmo \<le> 0 then RaisesOther ''ValueError''
      else if url = ''http://h/admin'' then Returns \<lparr>status_code = 200, resp_text = ''admin''\<rparr>
      else if url = ''http://h/struts2-showcase/index.action''
        then Returns \<lparr>status_code = 200, resp_text = ''Powered by Apache Struts''\<rparr>
      else if url = ''http://h/cgi-bin/.%2e/%2e%2e/%2e%2e/%2e%2e/etc/passwd''
        then Returns \<lparr>status_code = 200, resp_text = ''root:x:0:0''\<rparr>
      else if url = ''http://h/backup'' then RaisesRequestException ''Connection refused''
      else Returns \<lparr>status_code = 404, resp_text = ''Not Found''\<rparr>)"

definition demo_scanner :: scanner where
  "demo_scanner = WebVulnScanner ''http://h/'' 7 8 (Some ''out.json'')"

definition passwd_meta :: meta where
  "passwd_meta = \<lparr>path = ''/cgi-bin/.%2e/%2e%2e/%2e%2e/%2e%2e/etc/passwd'', keyword = Some ''root:''\<rparr>"

definition passwd_resp :: response where
  "passwd_resp = \<lparr>status_code = 200, resp_text = ''root:x:0:0''\<rparr>"

text \<open>
  A schedule for the concrete scanner (8 threads): the main thread starts the workers,
  worker 0 handles the nine paths, the main thread puts the sentinels, every worker takes
  one and leaves, the main thread joins them and extends the findings.
\<close>

definition demo_sched :: "tid list" where
  "demo_sched =
     replicate 9 MainThread @ concat (replicate 9 (replicate 4 (Worker 0)))
       @ replicate 9 MainThread @ concat (map (\<lambda>i. [Worker i, Worker i]) [0..<8])
       @ replicate 11 MainThread"

text \<open>
  A scanner with one thread and a timeout of 0, and the state of its pool after the main
  thread has started the worker and reached \<^verbatim>\<open>pathq.join()\<close>, and the worker has taken the
  first path and called \<^verbatim>\<open>robust_get\<close>.
\<close>

definition stuck_scanner :: scanner where
  "stuck_scanner = WebVulnScanner ''http://h/'' 0 1 None"

definition stuck_pool :: pool where
  "stuck_pool =
     exec demo_net [MainThread, MainThread, Worker 0, Worker 0] (start_pool stuck_scanner)"

text \<open>The outcome of the concrete run, and the Citrix task on the concrete network.\<close>

definition demo_findings :: "finding list" where
  "demo_findings =
     [[(''type'', ''exposed_path''), (''url'', ''http://h/admin'')],
      [(''type'', ''cve_test''), (''cve'', ''CVE-2017-5638''),
       (''url'', ''http://h/struts2-showcase/index.action''),
       (''status'', ''likely_present''), (''details'', ''Keyword matched in response.'')],
      [(''type'', ''cve_test''), (''cve'', ''CVE-2021-41773''),
       (''url'', ''http://h/cgi-bin/.%2e/%2e%2e/%2e%2e/%2e%2e/etc/passwd''),
       (''status'', ''likely_present''), (''details'', ''Keyword matched in response.'')]]"

definition demo_path_events :: "event list" where
  "demo_path_events =
     [PrintScanningPaths ''http://h'', HttpGet ''http://h/admin'' 7,
      PrintExposed ''http://h/admin'', HttpGet ''http://h/login'' 7,
      HttpGet ''http://h/.git'' 7, HttpGet ''http://h/.env'' 7,
      HttpGet ''http://h/config'' 7, HttpGet ''http://h/phpinfo.php'' 7,
      HttpGet ''http://h/test'' 7, HttpGet ''http://h/backup'' 7,
      PrintGetFailed ''http://h/backup'' ''Connection refused'',
      HttpGet ''http://h/.DS_Store'' 7]"

definition demo_cve_events :: "event list" where
  "demo_cve_events =
     [PrintScanningCVEs,
      HttpGet ''http://h/struts2-showcase/index.action'' 7,
      PrintLikelyPresent ''CVE-2017-5638'' ''http://h/struts2-showcase/index.action'',
      HttpGet ''http://h/vpn/../vpns/'' 7,
      PrintScanFailed ''CVE-2019-19781'' ''http://h/vpn/../vpns/'',
      HttpGet ''http://h/cgi-bin/.%2e/%2e%2e/%2e%2e/%2e%2e/etc/passwd'' 7,
      PrintLikelyPresent ''CVE-2021-41773''
        ''http://h/cgi-bin/.%2e/%2e%2e/%2e%2e/%2e%2e/etc/passwd'']"

definition demo_final :: scanner where
  "demo_final = demo_scanner\<lparr>findings := demo_findings\<rparr>"

definition demo_events :: "event list" where
  "demo_events =
     demo_path_events @ demo_cve_events
       @ [JsonDump ''out.json'' demo_findings, PrintJsonWritten ''out.json'', PrintDone,
          PrintFindingsHeader]
       @ map PrintFinding demo_findings"

definition vpn_task :: "string \<times> meta" where
  "vpn_task = (''CVE-2019-19781'', \<lparr>path = ''/vpn/../vpns/'', keyword = None\<rparr>)"

definition vpn_events :: "event list" where
  "vpn_events =
     [HttpGet ''http://h/vpn/../vpns/'' 7, PrintScanFailed ''CVE-2019-19781'' ''http://h/vpn/../vpns/'']"

definition vpn_finding :: finding where
  "vpn_finding =
     [(''type'', ''cve_test''), (''cve'', ''CVE-2019-19781''), (''url'', ''http://h/vpn/../vpns/''),
      (''status'', ''not_detected''), (''details'', [])]"

text \<open>
  Two scanners whose common-paths phase never returns. The first has no worker thread
  (\<^verbatim>\<open>--threads 0\<close>): its pool is taken after the main thread has left the empty loop that
  starts the threads. The second has one worker thread, on a network where the request for
  \<^verbatim>\<open>/login\<close> raises an exception that is not a \<^verbatim>\<open>RequestException\<close>: its pool is taken after
  the worker has handled \<^verbatim>\<open>/admin\<close>, taken \<^verbatim>\<open>/login\<close> and called \<^verbatim>\<open>robust_get\<close> for it.
\<close>

definition idle_scanner :: scanner where
  "idle_scanner = WebVulnScanner ''http://h/'' 7 0 None"

definition idle_pool :: pool where
  "idle_pool = exec demo_net [MainThread] (start_pool idle_scanner)"

definition flaky_net :: network where
  "flaky_net url tmo =
     (if url = ''http://h/login'' then RaisesOther ''MemoryError'' else demo_net url tmo)"

definition lone_scanner :: scanner where
  "lone_scanner = WebVulnScanner ''http://h/'' 7 1 None"

definition lone_pool :: pool where
  "lone_pool =
     exec flaky_net
       [MainThread, MainThread, Worker 0, Worker 0, Worker 0, Worker 0, Worker 0, Worker 0]
       (start_pool lone_scanner)"

text \<open>
  The pool of the concrete scanner after the main thread has started the first worker and
  that worker has taken \<^verbatim>\<open>/admin\<close> from the queue; and the concrete scanner after a CVE phase
  of its own.
\<close>

definition probing_pool :: pool where
  "probing_pool = exec demo_net [MainThread, Worker 0] (start_pool demo_scanner)"

definition demo_cve_only :: scanner where
  "demo_cve_only = demo_scanner\<lparr>findings := tl demo_findings\<rparr>"

section \<open>Properties\<close>

subsection \<open>Substring test\<close>

lemma startswith_iff: "startswith s k \<longleftrightarrow> (\<exists>ss. s = k @ ss)"
  by (induction s k rule: startswith.induct) auto

lemma str_in_iff: "str_in k s \<longleftrightarrow> (\<exists>ps ss. s = ps @ k @ ss)"
proof (induction s)
  case Nil
  then show ?case by auto
next
  case (Cons c cs)
  show ?case
  proof
    assume "str_in k (c # cs)"
    then consider "startswith (c # cs) k" | "str_in k cs" by auto
    then show "\<exists>ps ss. c # cs = ps @ k @ ss"
    proof cases
      case 1
      then obtain ss where "c # cs = k @ ss" by (auto simp: startswith_iff)
      then have "c # cs = [] @ k @ ss" by simp
      then show ?thesis by blast
    next
      case 2
      then obtain ps ss where "cs = ps @ k @ ss" using Cons.IH by blast
      then have "c # cs = (c # ps) @ k @ ss" by simp
      then show ?thesis by blast
    qed
  next
    assume "\<exists>ps ss. c # cs = ps @ k @ ss"
    then obtain ps ss where e: "c # cs = ps @ k @ ss" by blast
    show "str_in k (c # cs)"
    proof (cases ps)
      case Nil
      with e have "startswith (c # cs) k" by (auto simp: startswith_iff)
      then show ?thesis by simp
    next
      case (Cons p ps')
      with e have "cs = ps' @ k @ ss" by simp
      then have "str_in k cs" using Cons.IH by blast
      then show ?thesis by simp
    qed
  qed
qed

subsection \<open>Classification of a CVE task\<close>

lemma cve_task_200_keyword:
  assumes "net (target s @ path m) (timeout s) = Returns r" and "status_code r = 200"
    and "truthy_keyword (keyword m)"
  shows "classification net s (cve, m) =
           (if str_in (the (keyword m)) (resp_text r) then Some ''likely_present''
            else Some ''not_detected'')"
  using assms
  by (simp add: classification_def cve_task_def robust_get_def truthy_resp_def ok_def Let_def)

lemma cve_task_200_no_keyword:
  assumes "net (target s @ path m) (timeout s) = Returns r" and "status_code r = 200"
    and "\<not> truthy_keyword (keyword m)"
  shows "classification net s (cve, m) = Some ''possibly_detected''"
  using assms
  by (simp add: classification_def cve_task_def robust_get_def truthy_resp_def ok_def Let_def)

text \<open>
  Claim C2. A CVE task whose request returns a response with status 200: when the task has
  a keyword (the test \<^verbatim>\<open>if meta['keyword']\<close> succeeds), its status is \<^verbatim>\<open>likely_present\<close>
  exactly when the keyword occurs in the response body as a contiguous substring, and
  \<^verbatim>\<open>not_detected\<close> otherwise; when it has no keyword, its status is \<^verbatim>\<open>possibly_detected\<close>.
\<close>

theorem cve_status_200_classification:
  assumes "net (target s @ path m) (timeout s) = Returns r" and "status_code r = 200"
  shows "(truthy_keyword (keyword m) \<longrightarrow>
            (classification net s (cve, m) = Some ''likely_present''
               \<longleftrightarrow> (\<exists>ps ss. resp_text r = ps @ the (keyword m) @ ss)) \<and>
            (classification net s (cve, m) \<noteq> Some ''likely_present''
               \<longrightarrow> classification net s (cve, m) = Some ''not_detected'')) \<and>
         (\<not> truthy_keyword (keyword m) \<longrightarrow>
            classification net s (cve, m) = Some ''possibly_detected'')"
  using assms cve_task_200_keyword [of net s m r cve] cve_task_200_no_keyword [of net s m r cve]
  by (simp add: str_in_iff)

text \<open>
  On the table of the source, the test \<^verbatim>\<open>if meta['keyword']\<close> succeeds exactly for the entries
  whose keyword is not \<^verbatim>\<open>None\<close>: no entry has the empty string as its keyword.
\<close>

lemma CVE_PATHS_keywords:
  "\<forall>t \<in> set CVE_PATHS. truthy_keyword (keyword (snd t)) \<longleftrightarrow> keyword (snd t) \<noteq> None"
  by (simp add: CVE_PATHS_def truthy_keyword_def)

theorem cve_status_200_classification_witness:
  "demo_net (target demo_scanner @ path passwd_meta) (timeout demo_scanner) = Returns passwd_resp
   \<and> status_code passwd_resp = 200
   \<and> truthy_keyword (keyword passwd_meta)
   \<and> classification demo_net demo_scanner (''CVE-2021-41773'', passwd_meta) = Some ''likely_present''"
proof -
  have h1: "demo_net (target demo_scanner @ path passwd_meta) (timeout demo_scanner) = Returns passwd_resp"
    by (simp add: demo_net_def demo_scanner_def WebVulnScanner_def rstrip_slash_def
        passwd_meta_def passwd_resp_def)
  have h2: "status_code passwd_resp = 200" by (simp add: passwd_resp_def)
  have h3: "truthy_keyword (keyword passwd_meta)"
    by (simp add: truthy_keyword_def passwd_meta_def)
  have "resp_text passwd_resp = [] @ the (keyword passwd_meta) @ ''x:0:0''"
    by (simp add: passwd_resp_def passwd_meta_def)
  then have h4: "\<exists>ps ss. resp_text passwd_resp = ps @ the (keyword passwd_meta) @ ss" by blast
  from cve_status_200_classification
         [of demo_net demo_scanner passwd_meta passwd_resp "''CVE-2021-41773''"] h1 h2 h3 h4
  have "classification demo_net demo_scanner (''CVE-2021-41773'', passwd_meta) = Some ''likely_present''"
    by blast
  with h1 h2 h3 show ?thesis by blast
qed

text \<open>
  Claim C5. The claim wants the \<^verbatim>\<open>scan failed\<close> line to mark the transport failures. Here the
  request of a CVE task returns a response with status 404. Such a response is false as a
  condition, so the branch \<^verbatim>\<open>elif resp\<close>, which prints the HTTP status, is skipped and the
  \<^verbatim>\<open>else\<close> branch prints \<^verbatim>\<open>scan failed\<close>. The status stays \<^verbatim>\<open>not_detected\<close> and nothing is
  appended.
\<close>

theorem cve_404_prints_scan_failed:
  "cve_task demo_net demo_scanner (''CVE-2019-19781'', \<lparr>path = ''/vpn/../vpns/'', keyword = None\<rparr>)
     = (demo_scanner,
        [HttpGet ''http://h/vpn/../vpns/'' 7, PrintScanFailed ''CVE-2019-19781'' ''http://h/vpn/../vpns/''],
        Inr [(''type'', ''cve_test''), (''cve'', ''CVE-2019-19781''), (''url'', ''http://h/vpn/../vpns/''),
             (''status'', ''not_detected''), (''details'', '''')])"
  by (simp add: cve_task_def demo_net_def demo_scanner_def WebVulnScanner_def rstrip_slash_def
      robust_get_def truthy_resp_def ok_def Let_def)

subsection \<open>The HTTP probe\<close>

text \<open>
  Claim C4, as stated, fails: with a timeout of 0 the call raises \<^verbatim>\<open>ValueError\<close> in the
  concrete network, \<^verbatim>\<open>robust_get\<close> does not catch it, and it leaves the function.
\<close>

theorem robust_get_propagates_counterexample:
  "fst (robust_get demo_net ''http://h/admin'' 0) = Inl ''ValueError''"
  by (simp add: robust_get_def demo_net_def)

text \<open>
  Claim C4, amended. When the call raises a \<^verbatim>\<open>RequestException\<close>, \<^verbatim>\<open>robust_get\<close> prints the
  description and returns \<^verbatim>\<open>None\<close>; when the call returns a response, \<^verbatim>\<open>robust_get\<close> returns
  that response, status code and body unchanged, and prints nothing; an exception leaves
  \<^verbatim>\<open>robust_get\<close> exactly when the call raises one that is not a \<^verbatim>\<open>RequestException\<close>.
\<close>

theorem robust_get_outcome:
  "(\<forall>e. net url tmo = RaisesRequestException e \<longrightarrow>
       robust_get net url tmo = (Inr None, [HttpGet url tmo, PrintGetFailed url e])) \<and>
   (\<forall>r. net url tmo = Returns r \<longrightarrow>
       robust_get net url tmo = (Inr (Some r), [HttpGet url tmo])) \<and>
   (\<forall>e. fst (robust_get net url tmo) = Inl e \<longleftrightarrow> net url tmo = RaisesOther e)"
  by (cases "net url tmo") (simp_all add: robust_get_def)

theorem robust_get_outcome_witness:
  "demo_net ''http://h/backup'' 7 = RaisesRequestException ''Connection refused'' \<and>
   robust_get demo_net ''http://h/backup'' 7
     = (Inr None, [HttpGet ''http://h/backup'' 7, PrintGetFailed ''http://h/backup'' ''Connection refused'']) \<and>
   demo_net ''http://h/admin'' 7 = Returns \<lparr>status_code = 200, resp_text = ''admin''\<rparr> \<and>
   robust_get demo_net ''http://h/admin'' 7
     = (Inr (Some \<lparr>status_code = 200, resp_text = ''admin''\<rparr>), [HttpGet ''http://h/admin'' 7])"
proof -
  have a: "demo_net ''http://h/backup'' 7 = RaisesRequestException ''Connection refused''"
    by (simp add: demo_net_def)
  have b: "demo_net ''http://h/admin'' 7 = Returns \<lparr>status_code = 200, resp_text = ''admin''\<rparr>"
    by (simp add: demo_net_def)
  from robust_get_outcome [of demo_net "''http://h/backup''" 7] a
    robust_get_outcome [of demo_net "''http://h/admin''" 7] b
  show ?thesis by simp
qed

subsection \<open>Invariants of the worker pool\<close>

lemma sum_list_update_split:
  fixes f :: "'a \<Rightarrow> 'b::comm_monoid_add"
  shows "i < length ws \<Longrightarrow>
    \<exists>a. sum_list (map f ws) = a + f (ws ! i) \<and> (\<forall>w. sum_list (map f (ws[i := w])) = a + f w)"
proof (induction ws arbitrary: i)
  case Nil
  then show ?case by simp
next
  case (Cons x ws)
  show ?case
  proof (cases i)
    case 0
    have "sum_list (map f (x # ws)) = sum_list (map f ws) + f x"
      "\<forall>w. sum_list (map f ((x # ws)[0 := w])) = sum_list (map f ws) + f w"
      by (simp_all add: add.commute)
    with 0 show ?thesis by auto
  next
    case (Suc j)
    with Cons.prems have "j < length ws" by simp
    from Cons.IH [OF this] obtain a where
      a: "sum_list (map f ws) = a + f (ws ! j)" "\<forall>w. sum_list (map f (ws[j := w])) = a + f w"
      by blast
    have "sum_list (map f (x # ws)) = (f x + a) + f ((x # ws) ! Suc j)"
      "\<forall>w. sum_list (map f ((x # ws)[Suc j := w])) = (f x + a) + f w"
      using a by (simp_all add: add.assoc)
    with Suc show ?thesis by blast
  qed
qed

lemma qtasks_append_None [simp]: "qtasks (q @ [None]) = qtasks q"
  by (induction q rule: qtasks.induct) auto

lemma qstops_append_None [simp]: "qstops (q @ [None]) = Suc (qstops q)"
  by (induction q rule: qstops.induct) auto

lemma qtasks_map_Some [simp]: "qtasks (map Some xs) = xs"
  by (induction xs) auto

lemma qstops_map_Some [simp]: "qstops (map Some xs) = 0"
  by (induction xs) auto

lemma qtasks_Cons_length [simp]: "length (qtasks (x # q)) = length (qtasks q) + busy (Got x)"
  by (cases x) auto

lemma qstops_Cons [simp]: "qstops (x # q) = qstops q + leaving (Got x)"
  by (cases x) auto

lemma qtasks_Cons_Nil [simp]: "qtasks (x # q) = [] \<longleftrightarrow> x = None \<and> qtasks q = []"
  by (cases x) auto

lemma worker_step_frame:
  assumes "worker_step net p i = Some p'"
  shows "pc p' = pc p" and "scan p' = scan p" and "length (workers p') = length (workers p)"
  using assms
  by (auto simp: worker_step_def Let_def
      split: wstate.splits list.splits option.splits if_splits prod.splits sum.splits)

lemma main_step_frame:
  assumes "main_step p = Some p'"
  shows "results p' = results p" and "trace p' = trace p"
    and "target (scan p') = target (scan p)" and "timeout (scan p') = timeout (scan p)"
    and "threads (scan p') = threads (scan p)"
    and "integration_output (scan p') = integration_output (scan p)"
  using assms by (auto simp: main_step_def split: mstate.splits if_splits)

lemma worker_step_others:
  assumes "worker_step net p i = Some p'"
  shows "i < length (workers p)" and "\<not> stopped (workers p ! i)"
    and "j \<noteq> i \<Longrightarrow> workers p' ! j = workers p ! j"
  using assms
  by (auto simp: worker_step_def Let_def stopped_def
      split: wstate.splits list.splits option.splits if_splits prod.splits sum.splits)

lemma same_config_step:
  assumes "same_config s p" and "step net p t = Some p'"
  shows "same_config s p'"
proof (cases t)
  case MainThread
  with assms show ?thesis
    by (auto simp: same_config_def main_step_def split: mstate.splits if_splits)
next
  case (Worker i)
  with assms have "worker_step net p i = Some p'" by simp
  from worker_step_frame [OF this] assms(1) show ?thesis
    by (simp add: same_config_def)
qed

lemma started_inv_step:
  assumes "started_inv s p" and "same_config s p" and "step net p t = Some p'"
  shows "started_inv s p'"
proof (cases t)
  case MainThread
  with assms show ?thesis
    by (auto simp: started_inv_def same_config_def main_step_def split: mstate.splits if_splits)
next
  case (Worker i)
  with assms have "worker_step net p i = Some p'" by simp
  from worker_step_frame [OF this] assms(1) show ?thesis
    by (auto simp: started_inv_def split: mstate.splits)
qed

lemma joined_inv_step:
  assumes "joined_inv p" and "step net p t = Some p'"
  shows "joined_inv p'"
proof (cases t)
  case MainThread
  with assms show ?thesis
    by (auto simp: joined_inv_def main_step_def less_Suc_eq split: mstate.splits if_splits)
next
  case (Worker i)
  with assms have w: "worker_step net p i = Some p'" by simp
  note fr = worker_step_frame [OF w] and ot = worker_step_others [OF w]
  have "stopped (workers p' ! j)" if "stopped (workers p ! j)" for j
    using that ot(2) ot(3) [of j] by (cases "j = i") auto
  with assms(1) fr show ?thesis
    by (auto simp: joined_inv_def split: mstate.splits)
qed

lemma extended_inv_step:
  assumes "extended_inv s p" and "joined_inv p" and "same_config s p" and "step net p t = Some p'"
  shows "extended_inv s p'"
proof (cases t)
  case MainThread
  with assms show ?thesis
    by (auto simp: extended_inv_def same_config_def main_step_def split: mstate.splits if_splits)
next
  case (Worker i)
  with assms have w: "worker_step net p i = Some p'" by simp
  note fr = worker_step_frame [OF w] and ot = worker_step_others [OF w]
  from assms(2) ot(1) ot(2) have "pc p \<noteq> Finished"
    by (auto simp: joined_inv_def)
  with fr show ?thesis by (simp add: extended_inv_def)
qed


lemma count_inv_step:
  assumes "count_inv s p" and "same_config s p" and "started_inv s p"
    and "step net p t = Some p'"
  shows "count_inv s p'"
proof (cases t)
  case MainThread
  with assms show ?thesis
    by (auto simp: count_inv_def same_config_def started_inv_def main_step_def
        split: mstate.splits if_splits)
next
  case (Worker i)
  with assms have w: "worker_step net p i = Some p'" by simp
  note fr = worker_step_frame [OF w] and ot = worker_step_others [OF w]
  from sum_list_update_split [OF ot(1), of busy] obtain a where
    a: "sum_list (map busy (workers p)) = a + busy (workers p ! i)"
       "\<And>w. sum_list (map busy ((workers p)[i := w])) = a + busy w" by blast
  from sum_list_update_split [OF ot(1), of leaving] obtain b where
    b: "sum_list (map leaving (workers p)) = b + leaving (workers p ! i)"
       "\<And>w. sum_list (map leaving ((workers p)[i := w])) = b + leaving w" by blast
  from w assms(1) show ?thesis
    unfolding count_inv_def a(1) b(1)
    by (auto simp: worker_step_def Let_def a(2) b(2)
        split: wstate.splits list.splits option.splits if_splits prod.splits sum.splits)
qed

lemma drained_inv_step:
  assumes "drained_inv p" and "count_inv s p" and "step net p t = Some p'"
  shows "drained_inv p'"
proof (cases t)
  case MainThread
  with assms show ?thesis
    by (auto simp: drained_inv_def count_inv_def main_step_def simp del: sum_list_eq_0_iff
        split: mstate.splits if_splits)
next
  case (Worker i)
  with assms have w: "worker_step net p i = Some p'" by simp
  note fr = worker_step_frame [OF w] and ot = worker_step_others [OF w]
  from sum_list_update_split [OF ot(1), of busy] obtain a where
    a: "sum_list (map busy (workers p)) = a + busy (workers p ! i)"
       "\<And>w. sum_list (map busy ((workers p)[i := w])) = a + busy w" by blast
  from w assms(1) show ?thesis
    unfolding drained_inv_def a(1)
    by (auto simp: worker_step_def Let_def a(2) simp del: sum_list_eq_0_iff
        split: wstate.splits list.splits option.splits if_splits prod.splits sum.splits)
qed


lemma robust_get_requests: "filter is_get (snd (robust_get net url tmo)) = [HttpGet url tmo]"
  by (cases "net url tmo") (simp_all add: robust_get_def)

lemma exposed_print_no_get [simp]: "filter_mset is_get (mset (exposed_print url resp)) = {#}"
  by (simp add: exposed_print_def)

lemma qtasks_Cons_req [simp]:
  "image_mset (req s) (mset (qtasks (x # q)))
     = image_mset (req s) (mset (qtasks q)) + owed_req s (Got x)"
  by (cases x) auto

lemma qtasks_Cons_res [simp]:
  "mset (concat (map (expected net s) (qtasks (x # q))))
     = mset (concat (map (expected net s) (qtasks q))) + owed_res net s (Got x)"
  by (cases x) auto

lemma requests_inv_step:
  assumes "requests_inv s p" and "same_config s p" and "step net p t = Some p'"
  shows "requests_inv s p'"
proof (cases t)
  case MainThread
  with assms show ?thesis
    by (auto simp: requests_inv_def main_step_def split: mstate.splits if_splits)
next
  case (Worker i)
  with assms have w: "worker_step net p i = Some p'" by simp
  note ot = worker_step_others [OF w]
  from sum_list_update_split [OF ot(1), of "owed_req s"] obtain a where
    a: "sum_list (map (owed_req s) (workers p)) = a + owed_req s (workers p ! i)"
       "\<And>w. sum_list (map (owed_req s) ((workers p)[i := w])) = a + owed_req s w" by blast
  have cfg: "target (scan p) = target s" "timeout (scan p) = timeout s"
    using assms(2) by (simp_all add: same_config_def)
  have g: "filter_mset is_get (mset ev) = {#req s pth#}"
    if "robust_get net (target s @ pth) (timeout s) = (r, ev)" for r ev pth
  proof -
    from robust_get_requests [of net "target s @ pth" "timeout s"] that
    have "filter is_get ev = [req s pth]" by (simp add: req_def)
    then have "mset (filter is_get ev) = {#req s pth#}" by simp
    then show ?thesis by simp
  qed
  from w assms(1) show ?thesis
    unfolding requests_inv_def a(1)
    by (auto simp: worker_step_def Let_def a(2) cfg g add_ac
        split: wstate.splits list.splits option.splits if_splits prod.splits sum.splits)
qed

lemma results_inv_step:
  assumes "results_inv net s p" and "same_config s p" and "step net p t = Some p'"
  shows "results_inv net s p'"
proof (cases t)
  case MainThread
  with assms show ?thesis
    by (auto simp: results_inv_def main_step_def split: mstate.splits if_splits)
next
  case (Worker i)
  with assms have w: "worker_step net p i = Some p'" by simp
  note ot = worker_step_others [OF w]
  from sum_list_update_split [OF ot(1), of "owed_res net s"] obtain a where
    a: "sum_list (map (owed_res net s) (workers p)) = a + owed_res net s (workers p ! i)"
       "\<And>w. sum_list (map (owed_res net s) ((workers p)[i := w])) = a + owed_res net s w" by blast
  have cfg: "target (scan p) = target s" "timeout (scan p) = timeout s"
    using assms(2) by (simp_all add: same_config_def)
  from w assms(1) show ?thesis
    unfolding results_inv_def a(1)
    by (auto simp: worker_step_def Let_def a(2) cfg expected_def add_ac
        split: wstate.splits list.splits option.splits if_splits prod.splits sum.splits)
qed

subsection \<open>Every run of the pool ends, and how\<close>

lemma pool_inv_start: "pool_inv net s (start_pool s)"
  by (simp add: pool_inv_def start_pool_def same_config_def started_inv_def joined_inv_def
      extended_inv_def count_inv_def drained_inv_def requests_inv_def results_inv_def)

lemma pool_inv_step:
  assumes "pool_inv net s p" and "step net p t = Some p'"
  shows "pool_inv net s p'"
  using assms(1) same_config_step [OF _ assms(2)] started_inv_step [OF _ _ assms(2)]
    joined_inv_step [OF _ assms(2)] extended_inv_step [OF _ _ _ assms(2)]
    count_inv_step [OF _ _ _ assms(2)] drained_inv_step [OF _ _ assms(2)]
    requests_inv_step [OF _ _ assms(2)] results_inv_step [OF _ _ assms(2)]
  unfolding pool_inv_def by blast

lemma reachable_pool_inv: "reachable net s p \<Longrightarrow> pool_inv net s p"
  by (induction rule: reachable.induct) (auto intro: pool_inv_start pool_inv_step)

lemma reachable_exec: "reachable net s p \<Longrightarrow> reachable net s (exec net sched p)"
proof (induction sched arbitrary: p)
  case Nil
  then show ?case by simp
next
  case (Cons t sched)
  show ?case
  proof (cases "step net p t")
    case None
    with Cons show ?thesis by simp
  next
    case (Some p')
    with Cons.prems have "reachable net s p'" by (rule reachable_step)
    with Cons.IH Some show ?thesis by simp
  qed
qed

lemma exec_append: "exec net (a @ b) p = exec net b (exec net a p)"
  by (induction a arbitrary: p) auto

lemma steps_left_step:
  assumes "step net p t = Some p'"
  shows "steps_left p' < steps_left p"
proof (cases t)
  case MainThread
  with assms show ?thesis
    by (auto simp: steps_left_def main_step_def split: mstate.splits if_splits)
next
  case (Worker i)
  with assms have w: "worker_step net p i = Some p'" by simp
  note ot = worker_step_others [OF w]
  from sum_list_update_split [OF ot(1), of wweight] obtain a where
    a: "sum_list (map wweight (workers p)) = a + wweight (workers p ! i)"
       "\<And>w. sum_list (map wweight ((workers p)[i := w])) = a + wweight w" by blast
  from w show ?thesis
    unfolding steps_left_def a(1)
    by (auto simp: worker_step_def Let_def a(2)
        split: wstate.splits list.splits option.splits if_splits prod.splits sum.splits)
qed


lemma fit_update:
  assumes "\<forall>w \<in> set ws. fit w" and "fit w'"
  shows "\<forall>w \<in> set (ws[i := w']). fit w"
  using assms set_update_subset_insert [of ws i w'] by auto

lemma busy_positive:
  assumes "i < length ws" and "busy (ws ! i) = 1"
  shows "0 < sum_list (map busy ws)"
proof -
  from sum_list_update_split [OF assms(1), of busy] obtain a where
    "sum_list (map busy ws) = a + busy (ws ! i)" by blast
  with assms(2) show ?thesis by simp
qed

lemma healthy_inv_start: "healthy_inv (start_pool s)"
  by (simp add: healthy_inv_def start_pool_def)

lemma healthy_inv_step:
  assumes "healthy_inv p" and "count_inv s p" and "same_config s p" and "no_other net s"
    and "step net p t = Some p'"
  shows "healthy_inv p'"
proof (cases t)
  case MainThread
  with assms show ?thesis
    by (auto simp: healthy_inv_def main_step_def split: mstate.splits if_splits)
next
  case (Worker i)
  with assms have w: "worker_step net p i = Some p'" by simp
  note ot = worker_step_others [OF w]
  have cfg: "target (scan p) = target s" "timeout (scan p) = timeout s"
    using assms(3) by (simp_all add: same_config_def)
  have q: "set (qtasks (pathq p)) \<subseteq> set COMMON_PATHS" and ws: "\<forall>w \<in> set (workers p). fit w"
    using assms(1) by (simp_all add: healthy_inv_def)
  from ws ot(1) have fi: "fit (workers p ! i)" by simp
  have un: "0 < unfinished_tasks p" if "workers p ! i = AtTaskDone"
    using busy_positive [OF ot(1)] that assms(2) by (simp add: count_inv_def)
  have ro: "fst (robust_get net (target s @ pth) (timeout s)) \<noteq> Inl e"
    if "pth \<in> set COMMON_PATHS" for pth e
    using assms(4) that
    by (cases "net (target s @ pth) (timeout s)") (auto simp: no_other_def robust_get_def)
  show ?thesis
  proof (cases "workers p ! i")
    case AtGet
    with w obtain x q' where x: "pathq p = x # q'"
      "p' = p\<lparr>pathq := q', workers := (workers p)[i := Got x]\<rparr>"
      by (auto simp: worker_step_def split: list.splits if_splits)
    from q x(1) have "fit (Got x)" "set (qtasks q') \<subseteq> set COMMON_PATHS"
      by (cases x; simp)+
    with x(2) fit_update [OF ws, of "Got x" i] show ?thesis by (simp add: healthy_inv_def)
  next
    case (Got x)
    show ?thesis
    proof (cases x)
      case None
      with Got w have "p' = p\<lparr>workers := (workers p)[i := Exited]\<rparr>"
        by (auto simp: worker_step_def split: if_splits)
      with q fit_update [OF ws, of Exited i] show ?thesis by (simp add: healthy_inv_def)
    next
      case (Some pth)
      with Got fi have "pth \<in> set COMMON_PATHS" by simp
      from ro [OF this] obtain resp ev where
        r: "robust_get net (target s @ pth) (timeout s) = (Inr resp, ev)"
        by (cases "robust_get net (target s @ pth) (timeout s)"; cases "fst (robust_get net (target s @ pth) (timeout s))") auto
      with Got Some w cfg have
        "p' = p\<lparr>workers := (workers p)[i := Probed (target s @ pth) resp], trace := trace p @ ev\<rparr>"
        by (auto simp: worker_step_def Let_def split: if_splits)
      with q fit_update [OF ws, of "Probed (target s @ pth) resp" i] show ?thesis
        by (simp add: healthy_inv_def)
    qed
  next
    case (Probed url resp)
    with w have "p' = p\<lparr>workers := (workers p)[i := AtTaskDone],
                     results := results p @ exposed url resp,
                     trace := trace p @ exposed_print url resp\<rparr>"
      by (auto simp: worker_step_def split: if_splits)
    with q fit_update [OF ws, of AtTaskDone i] show ?thesis by (simp add: healthy_inv_def)
  next
    case AtTaskDone
    with w un have "p' = p\<lparr>workers := (workers p)[i := AtGet],
                           unfinished_tasks := unfinished_tasks p - 1\<rparr>"
      by (auto simp: worker_step_def split: if_splits)
    with q fit_update [OF ws, of AtGet i] show ?thesis by (simp add: healthy_inv_def)
  next
    case Exited
    with ot(2) show ?thesis by (simp add: stopped_def)
  next
    case (Died e)
    with ot(2) show ?thesis by (simp add: stopped_def)
  qed
qed

lemma reachable_healthy:
  assumes "no_other net s"
  shows "reachable net s p \<Longrightarrow> healthy_inv p"
proof (induction rule: reachable.induct)
  case reachable_start
  show ?case by (rule healthy_inv_start)
next
  case (reachable_step p t p')
  from reachable_pool_inv [OF reachable_step.hyps(1)]
  have "count_inv s p" "same_config s p" by (simp_all add: pool_inv_def)
  with reachable_step.IH assms reachable_step.hyps(2) show ?case
    by (blast intro: healthy_inv_step)
qed


lemma leaving_bound:
  assumes "i < length ws" and "leaving (ws ! i) = 0"
  shows "sum_list (map leaving ws) < length ws"
proof -
  have le: "sum_list (map leaving xs) \<le> length xs" for xs
  proof (induction xs)
    case Nil
    show ?case by simp
  next
    case (Cons x xs)
    have "leaving x \<le> 1" by (cases x rule: leaving.cases) auto
    with Cons show ?case by simp
  qed
  from sum_list_update_split [OF assms(1), of leaving] obtain a where
    a: "sum_list (map leaving ws) = a + leaving (ws ! i)"
       "\<forall>w. sum_list (map leaving (ws[i := w])) = a + leaving w" by blast
  from a(2) have "sum_list (map leaving (ws[i := Exited])) = a + 1" by simp
  with le [of "ws[i := Exited]"] have "a + 1 \<le> length ws" by simp
  with a(1) assms(2) show ?thesis by simp
qed

lemma busy_worker:
  assumes "0 < sum_list (map busy ws)"
  shows "\<exists>j < length ws. busy (ws ! j) \<noteq> 0"
proof -
  from assms have "\<exists>w \<in> set ws. busy w \<noteq> 0" by (induction ws) auto
  then show ?thesis by (auto simp: in_set_conv_nth)
qed

lemma worker_can_move:
  assumes "j < length (workers p)"
    and "workers p ! j = AtGet \<longrightarrow> pathq p \<noteq> []"
    and "\<not> stopped (workers p ! j)"
  shows "step net p (Worker j) \<noteq> None"
  using assms
  by (auto simp: worker_step_def Let_def stopped_def
      split: wstate.splits list.splits option.splits prod.splits sum.splits)

lemma progress:
  assumes inv: "pool_inv net s p" and he: "healthy_inv p" and thr: "0 < threads s"
    and nf: "pc p \<noteq> Finished"
  shows "\<exists>t. step net p t \<noteq> None"
proof -
  from inv have cfg: "same_config s p" and st: "started_inv s p" and cnt: "count_inv s p"
    by (simp_all add: pool_inv_def)
  from he have nodied: "\<not> stopped w \<or> w = Exited" if "w \<in> set (workers p)" for w
    using that by (cases w) (auto simp: healthy_inv_def stopped_def)
  show ?thesis
  proof (cases "pc p")
    case (Starting k)
    then have "step net p MainThread \<noteq> None" by (simp add: main_step_def)
    then show ?thesis by blast
  next
    case JoinQueue
    from st JoinQueue thr have len: "0 < length (workers p)" by (simp add: started_inv_def)
    from cnt JoinQueue have
      un: "unfinished_tasks p = length (qtasks (pathq p)) + sum_list (map busy (workers p))"
      and lv: "sum_list (map leaving (workers p)) = 0"
      by (simp_all add: count_inv_def del: sum_list_eq_0_iff)
    from lv have noexit: "w \<noteq> Exited" if "w \<in> set (workers p)" for w
      using that by auto
    have alive: "\<not> stopped (workers p ! j)" if "j < length (workers p)" for j
      using that nodied [of "workers p ! j"] noexit [of "workers p ! j"] by auto
    show ?thesis
    proof (cases "unfinished_tasks p = 0")
      case True
      with JoinQueue have "step net p MainThread \<noteq> None" by (simp add: main_step_def)
      then show ?thesis by blast
    next
      case False
      show ?thesis
      proof (cases "pathq p = []")
        case True
        then have "length (qtasks (pathq p)) = 0" by simp
        with un False have "0 < sum_list (map busy (workers p))" by arith
        from busy_worker [OF this] obtain j where
          j: "j < length (workers p)" "busy (workers p ! j) \<noteq> 0" by blast
        from j(2) have "workers p ! j \<noteq> AtGet" by auto
        with j(1) alive [OF j(1)] have "step net p (Worker j) \<noteq> None"
          by (intro worker_can_move) auto
        then show ?thesis by blast
      next
        case False
        with len alive [OF len] have "step net p (Worker 0) \<noteq> None"
          by (intro worker_can_move) auto
        then show ?thesis by blast
      qed
    qed
  next
    case (Stopping k)
    then have "step net p MainThread \<noteq> None" by (simp add: main_step_def)
    then show ?thesis by blast
  next
    case (JoinThreads k)
    from cnt JoinThreads st have
      lv: "length (workers p) = qstops (pathq p) + sum_list (map leaving (workers p))"
      by (simp add: count_inv_def started_inv_def)
    show ?thesis
    proof (cases "k < length (workers p)")
      case False
      with JoinThreads have "step net p MainThread \<noteq> None" by (simp add: main_step_def)
      then show ?thesis by blast
    next
      case True
      show ?thesis
      proof (cases "stopped (workers p ! k)")
        case True
        with JoinThreads \<open>k < length (workers p)\<close> have "step net p MainThread \<noteq> None"
          by (simp add: main_step_def)
        then show ?thesis by blast
      next
        case False
        have "pathq p \<noteq> []" if "workers p ! k = AtGet"
        proof
          assume "pathq p = []"
          with lv have "length (workers p) = sum_list (map leaving (workers p))" by simp
          moreover from that have "leaving (workers p ! k) = 0" by simp
          from leaving_bound [OF True this]
          have "sum_list (map leaving (workers p)) < length (workers p)" .
          ultimately show False by simp
        qed
        with True False have "step net p (Worker k) \<noteq> None"
          by (intro worker_can_move) auto
        then show ?thesis by blast
      qed
    qed
  next
    case Extend
    then have "step net p MainThread \<noteq> None" by (simp add: main_step_def)
    then show ?thesis by blast
  next
    case Finished
    with nf show ?thesis by simp
  qed
qed

lemma can_finish:
  assumes "no_other net s" and "0 < threads s"
  shows "reachable net s p \<Longrightarrow> \<exists>sched. pc (exec net sched p) = Finished"
proof (induction "steps_left p" arbitrary: p rule: less_induct)
  case less
  show ?case
  proof (cases "pc p = Finished")
    case True
    then have "pc (exec net [] p) = Finished" by simp
    then show ?thesis by blast
  next
    case False
    from progress [OF reachable_pool_inv [OF less.prems] reachable_healthy [OF assms(1) less.prems]
        assms(2) False]
    obtain t p' where st: "step net p t = Some p'" by auto
    from less.hyps [OF steps_left_step [OF st] reachable_step [OF less.prems st]]
    obtain sched where "pc (exec net sched p') = Finished" by blast
    with st have "pc (exec net (t # sched) p) = Finished" by simp
    then show ?thesis by blast
  qed
qed

subsection \<open>The concrete run\<close>

lemma demo_run_paths:
  "check_common_paths demo_net demo_sched demo_scanner =
     Some (demo_scanner\<lparr>findings := [[(''type'', ''exposed_path''), (''url'', ''http://h/admin'')]]\<rparr>,
       [PrintScanningPaths ''http://h'', HttpGet ''http://h/admin'' 7,
        PrintExposed ''http://h/admin'', HttpGet ''http://h/login'' 7,
        HttpGet ''http://h/.git'' 7, HttpGet ''http://h/.env'' 7,
        HttpGet ''http://h/config'' 7, HttpGet ''http://h/phpinfo.php'' 7,
        HttpGet ''http://h/test'' 7, HttpGet ''http://h/backup'' 7,
        PrintGetFailed ''http://h/backup'' ''Connection refused'',
        HttpGet ''http://h/.DS_Store'' 7])"
  by code_simp

subsection \<open>The findings of the common-paths phase\<close>

lemma owed_nothing:
  assumes "sum_list (map busy ws) = 0"
  shows "sum_list (map (owed_req s) ws) = {#}" and "sum_list (map (owed_res net s) ws) = {#}"
proof -
  have idle: "owed_req s w = {#} \<and> owed_res net s w = {#}" if "busy w = 0" for w
    using that by (cases w rule: busy.cases) auto
  from assms have "\<forall>w \<in> set ws. busy w = 0" by simp
  with idle have "\<forall>w \<in> set ws. owed_req s w = {#} \<and> owed_res net s w = {#}" by blast
  then show "sum_list (map (owed_req s) ws) = {#}" and "sum_list (map (owed_res net s) ws) = {#}"
    by (induction ws) auto
qed

lemma joined_pool:
  assumes "reachable net s p" and "joined (pc p)"
  shows "mset (filter is_get (trace p)) = mset (map (req s) COMMON_PATHS)"
    and "mset (results p) = mset (concat (map (expected net s) COMMON_PATHS))"
    and "qtasks (pathq p) = []" and "sum_list (map busy (workers p)) = 0"
proof -
  from reachable_pool_inv [OF assms(1)] have
    d: "drained_inv p" and r: "requests_inv s p" and f: "results_inv net s p"
    by (simp_all add: pool_inv_def)
  from d assms(2) show q: "qtasks (pathq p) = []" and b: "sum_list (map busy (workers p)) = 0"
    by (simp_all add: drained_inv_def del: sum_list_eq_0_iff)
  from r q owed_nothing(1) [OF b, of s]
  show "mset (filter is_get (trace p)) = mset (map (req s) COMMON_PATHS)"
    by (simp add: requests_inv_def)
  from f q owed_nothing(2) [OF b, of net s]
  show "mset (results p) = mset (concat (map (expected net s) COMMON_PATHS))"
    by (simp add: results_inv_def)
qed

lemma check_common_paths_Some:
  assumes "check_common_paths net sched s = Some (s', ev)"
  shows "\<exists>p. reachable net s p \<and> pc p = Finished \<and> s' = scan p \<and> ev = trace p"
proof -
  let ?p = "exec net sched (start_pool s)"
  have "reachable net s ?p" by (rule reachable_exec) (rule reachable_start)
  moreover from assms have "pc ?p = Finished \<and> s' = scan ?p \<and> ev = trace ?p"
    by (auto simp: check_common_paths_def Let_def split: if_splits)
  ultimately show ?thesis by blast
qed

lemma finished_pool:
  assumes "reachable net s p" and "pc p = Finished"
  shows "findings (scan p) = findings s @ results p"
    and "target (scan p) = target s" and "timeout (scan p) = timeout s"
    and "threads (scan p) = threads s" and "integration_output (scan p) = integration_output s"
  using reachable_pool_inv [OF assms(1)] assms(2)
  by (simp_all add: pool_inv_def extended_inv_def same_config_def)

lemma expected_eq:
  "expected net s pth = (if status_200 net s pth then [exposed_path_finding s pth] else [])"
  by (cases "net (target s @ pth) (timeout s)")
    (auto simp: expected_def robust_get_def exposed_def truthy_resp_def ok_def status_200_def
      exposed_path_finding_def)

lemma mset_concat_map_if:
  "mset (concat (map (\<lambda>x. if P x then [g x] else []) xs)) = mset (map g (filter P xs))"
  by (induction xs) auto

lemma expected_all:
  "mset (concat (map (expected net s) COMMON_PATHS))
     = mset (map (exposed_path_finding s) (filter (status_200 net s) COMMON_PATHS))"
proof -
  have "expected net s = (\<lambda>pth. if status_200 net s pth then [exposed_path_finding s pth] else [])"
    by (rule ext) (rule expected_eq)
  then show ?thesis by (simp only: mset_concat_map_if)
qed

subsection \<open>Every task once, and the end of the pool\<close>

lemma req_distinct: "distinct (map (req s) COMMON_PATHS)"
proof -
  have "inj_on (req s) (set COMMON_PATHS)" by (rule inj_onI) (simp add: req_def)
  moreover have "distinct COMMON_PATHS" by (simp add: COMMON_PATHS_def)
  ultimately show ?thesis by (simp add: distinct_map)
qed

lemma requests_bounded:
  assumes "reachable net s p"
  shows "mset (filter is_get (trace p)) \<subseteq># mset (map (req s) COMMON_PATHS)"
proof -
  from reachable_pool_inv [OF assms] have "requests_inv s p" by (simp add: pool_inv_def)
  then have "mset (map (req s) COMMON_PATHS)
      = (mset (map (req s) (qtasks (pathq p))) + sum_list (map (owed_req s) (workers p)))
          + mset (filter is_get (trace p))"
    by (simp add: requests_inv_def)
  then show ?thesis by (metis mset_subset_eq_add_right)
qed

lemma threads_ended:
  assumes "reachable net s p" and "pc p = Extend \<or> pc p = Finished"
  shows "list_all stopped (workers p)"
proof -
  from reachable_pool_inv [OF assms(1)] have "joined_inv p" by (simp add: pool_inv_def)
  with assms(2) have "\<forall>j < length (workers p). stopped (workers p ! j)"
    by (auto simp: joined_inv_def)
  then show ?thesis by (simp add: list_all_length)
qed

lemma reachable_sched: "reachable net s (exec net sched (start_pool s))"
  by (rule reachable_exec) (rule reachable_start)

text \<open>
  Claim C3, as stated, fails. The scanner has one worker thread and a timeout of 0. The
  request of the first path raises \<^verbatim>\<open>ValueError\<close>, which \<^verbatim>\<open>robust_get\<close> does not catch: the
  worker thread ends without \<^verbatim>\<open>task_done\<close>, eight paths stay in the queue, the main thread
  waits in \<^verbatim>\<open>pathq.join()\<close>, and no thread can take a step.
\<close>

theorem pool_stuck_counterexample:
  "0 < threads stuck_scanner
   \<and> pc stuck_pool = JoinQueue
   \<and> workers stuck_pool = [Died ''ValueError'']
   \<and> pathq stuck_pool = [Some ''/login'', Some ''/.git'', Some ''/.env'', Some ''/config'',
        Some ''/phpinfo.php'', Some ''/test'', Some ''/backup'', Some ''/.DS_Store'']
   \<and> unfinished_tasks stuck_pool = 9
   \<and> step demo_net stuck_pool MainThread = None
   \<and> step demo_net stuck_pool (Worker 0) = None"
  by code_simp

text \<open>
  Claim C3, amended. In every state the pool can reach, under any schedule: no request is
  sent twice (the requests sent are a sub-multiset of one request per path, and the paths'
  requests are distinct); once \<^verbatim>\<open>pathq.join()\<close> has returned, the request of every path has
  been sent, the queue holds no path and no worker holds a path not marked done; when the
  main thread reads \<^verbatim>\<open>results\<close>, every worker thread has ended. When the pool size is
  positive and no request raises an exception other than \<^verbatim>\<open>RequestException\<close>, every run
  can be continued until \<^verbatim>\<open>check_common_paths\<close> returns.
\<close>

theorem pool_processes_each_task_once:
  "distinct (map (req s) COMMON_PATHS)
   \<and> (\<forall>sched. mset (filter is_get (trace (exec net sched (start_pool s))))
                 \<subseteq># mset (map (req s) COMMON_PATHS))
   \<and> (\<forall>sched. joined (pc (exec net sched (start_pool s))) \<longrightarrow>
         mset (filter is_get (trace (exec net sched (start_pool s))))
           = mset (map (req s) COMMON_PATHS)
         \<and> qtasks (pathq (exec net sched (start_pool s))) = []
         \<and> sum_list (map busy (workers (exec net sched (start_pool s)))) = 0)
   \<and> (\<forall>sched. pc (exec net sched (start_pool s)) = Extend
               \<or> pc (exec net sched (start_pool s)) = Finished \<longrightarrow>
         list_all stopped (workers (exec net sched (start_pool s))))
   \<and> (0 < threads s \<and> no_other net s \<longrightarrow>
         (\<forall>sched. \<exists>more. pc (exec net (sched @ more) (start_pool s)) = Finished))"
proof (intro conjI allI impI)
  show "distinct (map (req s) COMMON_PATHS)" by (rule req_distinct)
next
  fix sched
  show "mset (filter is_get (trace (exec net sched (start_pool s))))
          \<subseteq># mset (map (req s) COMMON_PATHS)"
    by (rule requests_bounded) (rule reachable_sched)
next
  fix sched
  assume j: "joined (pc (exec net sched (start_pool s)))"
  note jp = joined_pool [OF reachable_sched j]
  show "mset (filter is_get (trace (exec net sched (start_pool s))))
          = mset (map (req s) COMMON_PATHS)" by (rule jp(1))
  show "qtasks (pathq (exec net sched (start_pool s))) = []" by (rule jp(3))
  show "sum_list (map busy (workers (exec net sched (start_pool s)))) = 0" by (rule jp(4))
next
  fix sched
  assume "pc (exec net sched (start_pool s)) = Extend
            \<or> pc (exec net sched (start_pool s)) = Finished"
  then show "list_all stopped (workers (exec net sched (start_pool s)))"
    by (rule threads_ended [OF reachable_sched])
next
  fix sched
  assume a: "0 < threads s \<and> no_other net s"
  from can_finish [of net s "exec net sched (start_pool s)"] a reachable_sched [of net s sched]
  obtain more where "pc (exec net more (exec net sched (start_pool s))) = Finished" by blast
  then have "pc (exec net (sched @ more) (start_pool s)) = Finished" by (simp add: exec_append)
  then show "\<exists>more. pc (exec net (sched @ more) (start_pool s)) = Finished" by blast
qed

lemma demo_no_other: "no_other demo_net demo_scanner"
  by (auto simp: no_other_def demo_net_def demo_scanner_def WebVulnScanner_def)

lemma demo_finished: "pc (exec demo_net demo_sched (start_pool demo_scanner)) = Finished"
  using demo_run_paths by (simp add: check_common_paths_def Let_def split: if_splits)

theorem pool_processes_each_task_once_witness:
  "0 < threads demo_scanner \<and> no_other demo_net demo_scanner
   \<and> joined (pc (exec demo_net demo_sched (start_pool demo_scanner)))
   \<and> mset (filter is_get (trace (exec demo_net demo_sched (start_pool demo_scanner))))
       = mset (map (req demo_scanner) COMMON_PATHS)
   \<and> list_all stopped (workers (exec demo_net demo_sched (start_pool demo_scanner)))
   \<and> (\<exists>more. pc (exec demo_net ([MainThread] @ more) (start_pool demo_scanner)) = Finished)"
proof -
  have t: "0 < threads demo_scanner" by (simp add: demo_scanner_def WebVulnScanner_def)
  have j: "joined (pc (exec demo_net demo_sched (start_pool demo_scanner)))"
    by (simp add: demo_finished)
  from pool_processes_each_task_once [of demo_scanner demo_net] t demo_no_other j demo_finished
  show ?thesis by blast
qed

subsection \<open>When the common-paths phase returns, and its findings\<close>

lemma results_bounded:
  assumes "reachable net s p"
  shows "mset (results p)
           \<subseteq># mset (map (exposed_path_finding s) (filter (status_200 net s) COMMON_PATHS))"
proof -
  from reachable_pool_inv [OF assms] have "results_inv net s p" by (simp add: pool_inv_def)
  then have "mset (concat (map (expected net s) COMMON_PATHS))
      = (mset (concat (map (expected net s) (qtasks (pathq p))))
           + sum_list (map (owed_res net s) (workers p))) + mset (results p)"
    by (simp add: results_inv_def)
  then have "mset (results p) \<subseteq># mset (concat (map (expected net s) COMMON_PATHS))"
    by (metis mset_subset_eq_add_right)
  then show ?thesis by (simp only: expected_all)
qed

lemma common_paths_returned:
  assumes "check_common_paths net sched s = Some (s', ev)"
  shows "\<exists>new. findings s' = findings s @ new \<and>
           mset new = mset (map (exposed_path_finding s) (filter (status_200 net s) COMMON_PATHS))"
proof -
  from check_common_paths_Some [OF assms] obtain p where
    p: "reachable net s p" "pc p = Finished" "s' = scan p" by blast
  from p(2) have "joined (pc p)" by simp
  from joined_pool(2) [OF p(1) this] expected_all [of net s]
  have "mset (results p)
          = mset (map (exposed_path_finding s) (filter (status_200 net s) COMMON_PATHS))"
    by simp
  with finished_pool(1) [OF p(1) p(2)] p(3) show ?thesis by blast
qed

lemma common_paths_can_return:
  assumes "0 < threads s" and "no_other net s"
  shows "\<exists>more s' ev. check_common_paths net (sched @ more) s = Some (s', ev)"
proof -
  from can_finish [OF assms(2,1) reachable_sched [of net s sched]]
  obtain more where "pc (exec net more (exec net sched (start_pool s))) = Finished" by blast
  then have "pc (exec net (sched @ more) (start_pool s)) = Finished" by (simp add: exec_append)
  then have "check_common_paths net (sched @ more) s
      = Some (scan (exec net (sched @ more) (start_pool s)),
              trace (exec net (sched @ more) (start_pool s)))"
    by (simp add: check_common_paths_def Let_def)
  then show ?thesis by blast
qed

lemma unreturned_findings:
  assumes "reachable net s p" and "pc p \<noteq> Finished"
  shows "findings (scan p) = findings s"
  using reachable_pool_inv [OF assms(1)] assms(2) by (simp add: pool_inv_def same_config_def)

lemma no_worker_no_request:
  "reachable net s p \<Longrightarrow> workers p = [] \<Longrightarrow> filter is_get (trace p) = []"
proof (induction rule: reachable.induct)
  case reachable_start
  show ?case by (simp add: start_pool_def)
next
  case (reachable_step p t p')
  show ?case
  proof (cases t)
    case MainThread
    with reachable_step.hyps(2) have m: "main_step p = Some p'" by simp
    with reachable_step.prems have "workers p = []"
      by (auto simp: main_step_def split: mstate.splits if_splits)
    with reachable_step.IH main_step_frame(2) [OF m] show ?thesis by simp
  next
    case (Worker i)
    with reachable_step.hyps(2) have w: "worker_step net p i = Some p'" by simp
    from worker_step_others(1) [OF w] worker_step_frame(3) [OF w] reachable_step.prems
    show ?thesis by simp
  qed
qed

lemma raised_step:
  assumes bad: "net (target s @ pth) (timeout s) = RaisesOther e"
    and cfg: "same_config s p"
    and inv: "req s pth \<in> set (trace p) \<longrightarrow> 0 < sum_list (map dead (workers p))"
    and st: "step net p t = Some p'"
  shows "req s pth \<in> set (trace p') \<longrightarrow> 0 < sum_list (map dead (workers p'))"
proof (cases t)
  case MainThread
  with st have m: "main_step p = Some p'" by simp
  from m have "sum_list (map dead (workers p')) = sum_list (map dead (workers p))"
    by (auto simp: main_step_def split: mstate.splits if_splits)
  with inv main_step_frame(2) [OF m] show ?thesis by simp
next
  case (Worker i)
  with st have w: "worker_step net p i = Some p'" by simp
  note ot = worker_step_others [OF w]
  from sum_list_update_split [OF ot(1), of dead] obtain a where
    a: "sum_list (map dead (workers p)) = a + dead (workers p ! i)"
       "\<And>w. sum_list (map dead ((workers p)[i := w])) = a + dead w" by blast
  from ot(2) have live: "dead (workers p ! i) = 0"
    by (cases "workers p ! i") (simp_all add: stopped_def)
  from cfg have c: "target (scan p) = target s" "timeout (scan p) = timeout s"
    by (simp_all add: same_config_def)
  from w inv bad show ?thesis
    unfolding a(1) live
    by (auto simp: worker_step_def Let_def a(2) c req_def robust_get_def exposed_print_def
        split: wstate.splits list.splits option.splits if_splits prod.splits sum.splits
          get_result.splits)
qed

lemma raised_worker_died:
  assumes "net (target s @ pth) (timeout s) = RaisesOther e"
  shows "reachable net s p \<Longrightarrow> req s pth \<in> set (trace p) \<longrightarrow> 0 < sum_list (map dead (workers p))"
proof (induction rule: reachable.induct)
  case reachable_start
  show ?case by (simp add: start_pool_def req_def)
next
  case (reachable_step p t p')
  from reachable_pool_inv [OF reachable_step.hyps(1)] have "same_config s p"
    by (simp add: pool_inv_def)
  from raised_step [OF assms this reachable_step.IH reachable_step.hyps(2)] show ?case .
qed

lemma returns_only_if:
  assumes "check_common_paths net sched s = Some (s', ev)"
  shows "0 < threads s \<and> no_other net s"
proof -
  from check_common_paths_Some [OF assms] obtain p where
    p: "reachable net s p" "pc p = Finished" by blast
  from p(2) have j: "joined (pc p)" by simp
  note jp = joined_pool [OF p(1) j]
  have all: "req s pth \<in> set (trace p)" if "pth \<in> set COMMON_PATHS" for pth
  proof -
    from that have "req s pth \<in># mset (map (req s) COMMON_PATHS)" by simp
    with jp(1) have "req s pth \<in># mset (filter is_get (trace p))" by simp
    then show ?thesis by simp
  qed
  have "0 < threads s"
  proof (rule ccontr)
    assume "\<not> 0 < threads s"
    moreover from reachable_pool_inv [OF p(1)] p(2) have "length (workers p) = nat (threads s)"
      by (simp add: pool_inv_def started_inv_def)
    ultimately have "workers p = []" by simp
    from no_worker_no_request [OF p(1) this] all [of "''/admin''"] show False
      by (auto simp: COMMON_PATHS_def filter_empty_conv req_def)
  qed
  moreover have "no_other net s"
    unfolding no_other_def
  proof (intro ballI allI notI)
    fix pth e assume b: "pth \<in> set COMMON_PATHS" "net (target s @ pth) (timeout s) = RaisesOther e"
    from raised_worker_died [OF b(2) p(1)] all [OF b(1)]
    have d: "0 < sum_list (map dead (workers p))" by simp
    have "dead w \<le> busy w" for w by (cases w rule: busy.cases) simp_all
    then have "sum_list (map dead (workers p)) \<le> sum_list (map busy (workers p))"
      by (intro sum_list_mono) simp
    with d jp(4) show False by simp
  qed
  ultimately show ?thesis ..
qed

text \<open>
  Claim C1, as stated, fails. On both scanners the request for \<^verbatim>\<open>/admin\<close> returns a response
  with status 200, and no \<^verbatim>\<open>exposed_path\<close> finding is ever recorded in \<^verbatim>\<open>self.findings\<close>: the
  main thread waits in \<^verbatim>\<open>pathq.join()\<close> with unfinished tasks, and no thread can take a step.
  With no worker thread, nothing is ever probed; with the worker thread that died, the
  finding for \<^verbatim>\<open>/admin\<close> is in the local list \<^verbatim>\<open>results\<close>, which is never copied to
  \<^verbatim>\<open>self.findings\<close>.
\<close>

theorem common_paths_unrecorded_counterexample:
  "status_200 demo_net idle_scanner ''/admin''
   \<and> pc idle_pool = JoinQueue
   \<and> workers idle_pool = []
   \<and> unfinished_tasks idle_pool = 9
   \<and> step demo_net idle_pool MainThread = None
   \<and> results idle_pool = []
   \<and> findings (scan idle_pool) = []
   \<and> status_200 flaky_net lone_scanner ''/admin''
   \<and> 0 < threads lone_scanner
   \<and> pc lone_pool = JoinQueue
   \<and> workers lone_pool = [Died ''MemoryError'']
   \<and> unfinished_tasks lone_pool = 8
   \<and> step flaky_net lone_pool MainThread = None
   \<and> step flaky_net lone_pool (Worker 0) = None
   \<and> results lone_pool = [[(''type'', ''exposed_path''), (''url'', ''http://h/admin'')]]
   \<and> findings (scan lone_pool) = []"
  by code_simp

text \<open>
  Claim C1, amended. Under every schedule, the findings appended to \<^verbatim>\<open>results\<close> are among
  one \<^verbatim>\<open>exposed_path\<close> finding for each path whose request returned a response with status
  200: a path with another status, or whose request failed, has no finding, and no path has
  two; \<^verbatim>\<open>self.findings\<close> is as it was until the phase returns. The phase returns only when the
  number of threads is positive and no request raises an exception other than
  \<^verbatim>\<open>RequestException\<close>, and then the findings it has added to \<^verbatim>\<open>self.findings\<close> are, up to
  their order, exactly those. Under these two conditions every run can be continued until
  the phase returns, with exactly those findings added.
\<close>

theorem common_paths_findings_when_returning:
  "(reachable net s p \<longrightarrow>
      mset (results p)
        \<subseteq># mset (map (exposed_path_finding s) (filter (status_200 net s) COMMON_PATHS)))
   \<and> (reachable net s p \<and> pc p \<noteq> Finished \<longrightarrow> findings (scan p) = findings s)
   \<and> (check_common_paths net sched s = Some (s', ev) \<longrightarrow>
        0 < threads s \<and> no_other net s
        \<and> (\<exists>new. findings s' = findings s @ new \<and>
             mset new = mset (map (exposed_path_finding s) (filter (status_200 net s) COMMON_PATHS))))
   \<and> (0 < threads s \<and> no_other net s \<longrightarrow>
        (\<forall>sched. \<exists>more s' ev new.
           check_common_paths net (sched @ more) s = Some (s', ev)
           \<and> findings s' = findings s @ new
           \<and> mset new = mset (map (exposed_path_finding s) (filter (status_200 net s) COMMON_PATHS))))"
proof (intro conjI impI allI)
  show "mset (results p)
        \<subseteq># mset (map (exposed_path_finding s) (filter (status_200 net s) COMMON_PATHS))"
    if "reachable net s p" using that by (rule results_bounded)
  show "findings (scan p) = findings s" if "reachable net s p \<and> pc p \<noteq> Finished"
    using that unreturned_findings by blast
next
  assume c: "check_common_paths net sched s = Some (s', ev)"
  from returns_only_if [OF c] show "0 < threads s" and "no_other net s" by simp_all
  from c show "\<exists>new. findings s' = findings s @ new \<and>
           mset new = mset (map (exposed_path_finding s) (filter (status_200 net s) COMMON_PATHS))"
    by (rule common_paths_returned)
next
  fix sched0
  assume a: "0 < threads s \<and> no_other net s"
  then obtain more s1 ev1 where
    c: "check_common_paths net (sched0 @ more) s = Some (s1, ev1)"
    using common_paths_can_return [of s net sched0] by blast
  from common_paths_returned [OF c] c
  show "\<exists>more s' ev new.
           check_common_paths net (sched0 @ more) s = Some (s', ev)
           \<and> findings s' = findings s @ new
           \<and> mset new = mset (map (exposed_path_finding s) (filter (status_200 net s) COMMON_PATHS))"
    by blast
qed

theorem common_paths_findings_when_returning_witness:
  "0 < threads demo_scanner \<and> no_other demo_net demo_scanner
   \<and> reachable demo_net demo_scanner (start_pool demo_scanner)
   \<and> check_common_paths demo_net demo_sched demo_scanner =
       Some (demo_scanner\<lparr>findings := [[(''type'', ''exposed_path''), (''url'', ''http://h/admin'')]]\<rparr>,
             demo_path_events)
   \<and> (\<exists>new. findings (demo_scanner\<lparr>findings := [[(''type'', ''exposed_path''), (''url'', ''http://h/admin'')]]\<rparr>)
               = findings demo_scanner @ new \<and>
             mset new = mset (map (exposed_path_finding demo_scanner)
                               (filter (status_200 demo_net demo_scanner) COMMON_PATHS)))
   \<and> filter (status_200 demo_net demo_scanner) COMMON_PATHS = [''/admin'']
   \<and> (\<exists>more s' ev new.
         check_common_paths demo_net ([MainThread, Worker 0] @ more) demo_scanner = Some (s', ev)
         \<and> findings s' = findings demo_scanner @ new
         \<and> mset new = mset (map (exposed_path_finding demo_scanner)
                              (filter (status_200 demo_net demo_scanner) COMMON_PATHS)))"
proof -
  have t: "0 < threads demo_scanner" by (simp add: demo_scanner_def WebVulnScanner_def)
  have f: "filter (status_200 demo_net demo_scanner) COMMON_PATHS = [''/admin'']"
    by (simp add: status_200_def demo_net_def demo_scanner_def WebVulnScanner_def rstrip_slash_def
        COMMON_PATHS_def)
  have c: "check_common_paths demo_net demo_sched demo_scanner =
       Some (demo_scanner\<lparr>findings := [[(''type'', ''exposed_path''), (''url'', ''http://h/admin'')]]\<rparr>,
             demo_path_events)"
    using demo_run_paths by (simp add: demo_path_events_def)
  have r: "reachable demo_net demo_scanner (start_pool demo_scanner)" by (rule reachable_start)
  from common_paths_findings_when_returning [of demo_net demo_scanner "start_pool demo_scanner"
      demo_sched "demo_scanner\<lparr>findings := [[(''type'', ''exposed_path''), (''url'', ''http://h/admin'')]]\<rparr>"
      demo_path_events] t demo_no_other c f r
  show ?thesis by blast
qed

subsection \<open>The CVE phase, and status 404\<close>

lemma robust_get_events:
  "filter is_get (snd (robust_get net url tmo)) = [HttpGet url tmo]"
  "filter is_dump (snd (robust_get net url tmo)) = []"
  by (cases "net url tmo"; simp add: robust_get_def)+

lemma cve_task_props:
  assumes "cve_task net s t = (s1, ev, r)"
  shows "same_settings s s1"
    and "findings s1 = findings s \<or> (\<exists>f. findings s1 = findings s @ [f] \<and> detected f \<and> r = Inr f)"
    and "filter is_get ev = [cve_req s t]" and "filter is_dump ev = []"
    and "r = Inr f \<Longrightarrow> getitem f ''status'' = Some ''not_detected'' \<Longrightarrow> findings s1 = findings s"
proof -
  obtain r0 ev0 where g: "robust_get net (target s @ path (snd t)) (timeout s) = (r0, ev0)"
    by (cases "robust_get net (target s @ path (snd t)) (timeout s)") auto
  from robust_get_events [of net "target s @ path (snd t)" "timeout s"] g
  have e: "filter is_get ev0 = [cve_req s t]" "filter is_dump ev0 = []"
    by (simp_all add: cve_req_def)
  from assms g show "same_settings s s1"
    by (auto simp: cve_task_def Let_def same_settings_def split: sum.splits if_splits)
  from assms g show
    "findings s1 = findings s \<or> (\<exists>f. findings s1 = findings s @ [f] \<and> detected f \<and> r = Inr f)"
    by (auto simp: cve_task_def Let_def detected_def split: sum.splits if_splits)
  from assms g e show "filter is_get ev = [cve_req s t]" and "filter is_dump ev = []"
    by (auto simp: cve_task_def Let_def split: sum.splits if_splits)
  assume "r = Inr f" "getitem f ''status'' = Some ''not_detected''"
  with assms g show "findings s1 = findings s"
    by (auto simp: cve_task_def Let_def split: sum.splits if_splits)
qed

lemma same_settings_trans: "same_settings a b \<Longrightarrow> same_settings b c \<Longrightarrow> same_settings a c"
  by (simp add: same_settings_def)

lemma cve_loop_props:
  assumes "cve_loop net ts s = (s', ev, r)"
  shows "same_settings s s' \<and> (\<exists>new. findings s' = findings s @ new \<and> list_all detected new)
         \<and> filter is_dump ev = []
         \<and> (\<exists>k \<le> length ts. filter is_get ev = map (cve_req s) (take k ts)
                \<and> (r = None \<longrightarrow> k = length ts))"
  using assms
proof (induction ts arbitrary: s s' ev r)
  case Nil
  then show ?case by (simp add: same_settings_def)
next
  case (Cons t ts)
  obtain s1 ev1 r1 where t: "cve_task net s t = (s1, ev1, r1)"
    by (cases "cve_task net s t") auto
  note p = cve_task_props [OF t]
  from p(2) obtain new1 where n1: "findings s1 = findings s @ new1" "list_all detected new1"
    by auto
  show ?case
  proof (cases r1)
    case (Inl e)
    with t Cons.prems have "s' = s1" "ev = ev1" "r = Some e" by simp_all
    with p n1 have "same_settings s s'" "findings s' = findings s @ new1" "list_all detected new1"
      "filter is_dump ev = []" "filter is_get ev = map (cve_req s) (take 1 (t # ts))"
      "r \<noteq> None" by simp_all
    then show ?thesis by (intro conjI exI [of _ new1] exI [of _ 1]) auto
  next
    case (Inr f)
    obtain s2 ev2 r2 where l: "cve_loop net ts s1 = (s2, ev2, r2)"
      by (cases "cve_loop net ts s1") auto
    with t Inr Cons.prems have eq: "s' = s2" "ev = ev1 @ ev2" "r = r2" by simp_all
    from Cons.IH [OF l] obtain new2 k where ih:
      "same_settings s1 s2" "findings s2 = findings s1 @ new2" "list_all detected new2"
      "filter is_dump ev2 = []" "k \<le> length ts" "filter is_get ev2 = map (cve_req s1) (take k ts)"
      "r2 = None \<longrightarrow> k = length ts" by blast
    from p(1) have "cve_req s1 = cve_req s"
      by (intro ext) (simp add: cve_req_def same_settings_def)
    with ih(6) p(3) eq(2) have
      g: "filter is_get ev = map (cve_req s) (take (Suc k) (t # ts))" by simp
    from eq ih n1 p have "same_settings s s'" "findings s' = findings s @ (new1 @ new2)"
      "list_all detected (new1 @ new2)" "filter is_dump ev = []" "Suc k \<le> length (t # ts)"
      "r = None \<longrightarrow> Suc k = length (t # ts)"
      by (auto intro: same_settings_trans)
    with g show ?thesis by (intro conjI exI [of _ "new1 @ new2"] exI [of _ "Suc k"]) simp_all
  qed
qed

lemma check_cve_signatures_props:
  assumes "check_cve_signatures net s = (s', ev, r)"
  shows "same_settings s s'" and "\<exists>new. findings s' = findings s @ new \<and> list_all detected new"
    and "filter is_dump ev = []"
    and "\<exists>k \<le> length CVE_PATHS. filter is_get ev = map (cve_req s) (take k CVE_PATHS)
                \<and> (r = None \<longrightarrow> k = length CVE_PATHS)"
proof -
  obtain ev0 where l: "cve_loop net CVE_PATHS s = (s', ev0, r)" and e: "ev = PrintScanningCVEs # ev0"
    using assms by (cases "cve_loop net CVE_PATHS s") (auto simp: check_cve_signatures_def)
  from cve_loop_props [OF l] e
  show "same_settings s s'" and "\<exists>new. findings s' = findings s @ new \<and> list_all detected new"
    and "filter is_dump ev = []"
    and "\<exists>k \<le> length CVE_PATHS. filter is_get ev = map (cve_req s) (take k CVE_PATHS)
                \<and> (r = None \<longrightarrow> k = length CVE_PATHS)"
    by simp_all
qed


lemma no_dump_step:
  assumes "filter is_dump (trace p) = []" and "step net p t = Some p'"
  shows "filter is_dump (trace p') = []"
proof (cases t)
  case MainThread
  with assms main_step_frame(2) [of p p'] show ?thesis by simp
next
  case (Worker i)
  with assms have w: "worker_step net p i = Some p'" by simp
  have "filter is_dump ev = []"
    if "robust_get net url tmo = (r, ev)" for url tmo r ev
    using robust_get_events(2) [of net url tmo] that by simp
  with w assms(1) show ?thesis
    by (auto simp: worker_step_def Let_def exposed_print_def
        split: wstate.splits list.splits option.splits if_splits prod.splits sum.splits)
qed

lemma reachable_no_dump: "reachable net s p \<Longrightarrow> filter is_dump (trace p) = []"
  by (induction rule: reachable.induct) (auto simp: start_pool_def intro: no_dump_step)

text \<open>
  Claim C6. A response with status 404 adds no finding, in either phase: the iteration of
  the CVE loop leaves \<^verbatim>\<open>self.findings\<close> as it is; the worker that holds such a response
  appends nothing to \<^verbatim>\<open>results\<close>; and the path's task contributes nothing to the findings
  of the phase.
\<close>

theorem status_404_no_finding:
  assumes "status_code r = 404"
  shows "(net (target s @ path m) (timeout s) = Returns r \<longrightarrow>
            findings (fst (cve_task net s (cve, m))) = findings s)
       \<and> (i < length (workers p) \<and> workers p ! i = Probed url (Some r) \<longrightarrow>
            (\<exists>p'. worker_step net p i = Some p' \<and> results p' = results p))
       \<and> (net (target s @ pth) (timeout s) = Returns r \<longrightarrow>
            \<not> status_200 net s pth \<and> expected net s pth = [])"
  using assms
  by (auto simp: cve_task_def robust_get_def truthy_resp_def ok_def Let_def worker_step_def
      exposed_def status_200_def expected_def)

theorem status_404_no_finding_witness:
  "status_code \<lparr>status_code = 404, resp_text = ''Not Found''\<rparr> = 404
   \<and> demo_net (target demo_scanner @ path \<lparr>path = ''/vpn/../vpns/'', keyword = None\<rparr>)
        (timeout demo_scanner) = Returns \<lparr>status_code = 404, resp_text = ''Not Found''\<rparr>
   \<and> findings (fst (cve_task demo_net demo_scanner
        (''CVE-2019-19781'', \<lparr>path = ''/vpn/../vpns/'', keyword = None\<rparr>))) = findings demo_scanner
   \<and> demo_net (target demo_scanner @ ''/.env'') (timeout demo_scanner)
        = Returns \<lparr>status_code = 404, resp_text = ''Not Found''\<rparr>
   \<and> expected demo_net demo_scanner ''/.env'' = []"
proof -
  have a: "status_code \<lparr>status_code = 404, resp_text = ''Not Found''\<rparr> = 404" by simp
  have b: "demo_net (target demo_scanner @ path \<lparr>path = ''/vpn/../vpns/'', keyword = None\<rparr>)
        (timeout demo_scanner) = Returns \<lparr>status_code = 404, resp_text = ''Not Found''\<rparr>"
    by (simp add: demo_net_def demo_scanner_def WebVulnScanner_def rstrip_slash_def)
  have c: "demo_net (target demo_scanner @ ''/.env'') (timeout demo_scanner)
        = Returns \<lparr>status_code = 404, resp_text = ''Not Found''\<rparr>"
    by (simp add: demo_net_def demo_scanner_def WebVulnScanner_def rstrip_slash_def)
  from status_404_no_finding [OF a, of demo_net demo_scanner
      "\<lparr>path = ''/vpn/../vpns/'', keyword = None\<rparr>" "''CVE-2019-19781''" 0 "start_pool demo_scanner"
      "[]" "''/.env''"] a b c
  show ?thesis by blast
qed

subsection \<open>The whole run, and the statuses of its findings\<close>

lemma demo_run: "run demo_net demo_sched demo_scanner = Some (demo_final, demo_events, None)"
  by code_simp

lemma run_cases:
  assumes "run net sched s = Some (s', ev, r)"
  shows "\<exists>s1 ev1 ev2. check_common_paths net sched s = Some (s1, ev1)
           \<and> check_cve_signatures net s1 = (s', ev2, r)
           \<and> ev = ev1 @ ev2 @
                 (if r = None
                  then save_results_json s' @ [PrintDone, PrintFindingsHeader]
                         @ map PrintFinding (findings s')
                  else [])"
proof (cases "check_common_paths net sched s")
  case None
  with assms show ?thesis by (simp add: run_def)
next
  case (Some a)
  obtain s1 ev1 where a: "a = (s1, ev1)" by (cases a)
  obtain s2 ev2 r2 where c: "check_cve_signatures net s1 = (s2, ev2, r2)"
    by (cases "check_cve_signatures net s1") auto
  from assms Some a c show ?thesis
    by (cases r2) (auto simp: run_def)
qed

lemma exposed_not_cve:
  "getitem (exposed_path_finding s pth) ''status'' = None"
  "getitem (exposed_path_finding s pth) ''type'' = Some ''exposed_path''"
  by (simp_all add: exposed_path_finding_def)

lemma run_findings:
  assumes "run net sched s = Some (s', ev, r)"
  shows "\<exists>new1 new2. findings s' = findings s @ new1 @ new2
           \<and> mset new1 = mset (map (exposed_path_finding s) (filter (status_200 net s) COMMON_PATHS))
           \<and> list_all detected new2"
proof -
  from run_cases [OF assms] obtain s1 ev1 ev2 where
    c: "check_common_paths net sched s = Some (s1, ev1)"
       "check_cve_signatures net s1 = (s', ev2, r)" by blast
  from check_common_paths_Some [OF c(1)] obtain p where
    p: "reachable net s p" "pc p = Finished" "s1 = scan p" by blast
  from p(2) have "joined (pc p)" by simp
  from joined_pool(2) [OF p(1) this] expected_all [of net s]
  have "mset (results p)
          = mset (map (exposed_path_finding s) (filter (status_200 net s) COMMON_PATHS))"
    by simp
  moreover from finished_pool(1) [OF p(1) p(2)] p(3)
  have "findings s1 = findings s @ results p" by simp
  moreover from check_cve_signatures_props(2) [OF c(2)] obtain new2 where
    "findings s' = findings s1 @ new2" "list_all detected new2" by blast
  ultimately show ?thesis by auto
qed

lemma run_dumps:
  assumes "run net sched s = Some (s', ev, r)" and "JsonDump file fs \<in> set ev"
  shows "fs = findings s' \<and> r = None \<and> truthy_output (integration_output s')
         \<and> integration_output s' = Some file"
proof -
  from run_cases [OF assms(1)] obtain s1 ev1 ev2 where
    c: "check_common_paths net sched s = Some (s1, ev1)"
       "check_cve_signatures net s1 = (s', ev2, r)"
       "ev = ev1 @ ev2 @
                 (if r = None
                  then save_results_json s' @ [PrintDone, PrintFindingsHeader]
                         @ map PrintFinding (findings s')
                  else [])" by blast
  from check_common_paths_Some [OF c(1)] obtain p where
    "reachable net s p" "ev1 = trace p" by blast
  with reachable_no_dump have "filter is_dump ev1 = []" by simp
  then have n1: "JsonDump file fs \<notin> set ev1" by (auto simp: filter_empty_conv)
  from check_cve_signatures_props(3) [OF c(2)]
  have n2: "JsonDump file fs \<notin> set ev2" by (auto simp: filter_empty_conv)
  from assms(2) c(3) n1 n2 show ?thesis
    by (auto simp: save_results_json_def truthy_output_def split: if_splits option.splits)
qed

text \<open>
  Claim C10. After a run of a scanner as the constructor makes it, no finding has the
  status \<^verbatim>\<open>not_detected\<close>, and every finding of type \<^verbatim>\<open>cve_test\<close> has the status
  \<^verbatim>\<open>likely_present\<close> or \<^verbatim>\<open>possibly_detected\<close>; the list handed to \<^verbatim>\<open>json.dump\<close> holds no
  \<^verbatim>\<open>not_detected\<close> record. An iteration of the CVE loop whose \<^verbatim>\<open>finding\<close> ends with the status
  \<^verbatim>\<open>not_detected\<close> appends nothing; an iteration that appends, appends its \<^verbatim>\<open>finding\<close>,
  with one of the two other statuses.
\<close>

theorem no_not_detected_record:
  "(run net sched (WebVulnScanner tgt tmo thr out) = Some (s', ev, r) \<longrightarrow>
      (\<forall>f \<in> set (findings s'). getitem f ''status'' \<noteq> Some ''not_detected''
          \<and> (getitem f ''type'' = Some ''cve_test'' \<longrightarrow> detected f))
      \<and> (\<forall>file fs. JsonDump file fs \<in> set ev \<longrightarrow>
            (\<forall>f \<in> set fs. getitem f ''status'' \<noteq> Some ''not_detected'')))
   \<and> (cve_task net s t = (s1, ev1, Inr f) \<longrightarrow>
        (getitem f ''status'' = Some ''not_detected'' \<longrightarrow> findings s1 = findings s)
        \<and> (findings s1 = findings s \<or> findings s1 = findings s @ [f] \<and> detected f))"
proof (intro conjI impI)
  assume run: "run net sched (WebVulnScanner tgt tmo thr out) = Some (s', ev, r)"
  let ?s = "WebVulnScanner tgt tmo thr out"
  from run_findings [OF run] obtain new1 new2 where
    n: "findings s' = findings ?s @ new1 @ new2"
       "mset new1 = mset (map (exposed_path_finding ?s) (filter (status_200 net ?s) COMMON_PATHS))"
       "list_all detected new2" by blast
  have e: "findings ?s = []" by (simp add: WebVulnScanner_def)
  from n(2) have "set new1 = set (map (exposed_path_finding ?s) (filter (status_200 net ?s) COMMON_PATHS))"
    by (rule mset_eq_setD)
  then have g1: "getitem f ''status'' = None \<and> getitem f ''type'' = Some ''exposed_path''"
    if "f \<in> set new1" for f
    using that exposed_not_cve by auto
  from n(3) have g2: "detected f" if "f \<in> set new2" for f
    using that by (simp add: list_all_iff)
  show good: "\<forall>f \<in> set (findings s'). getitem f ''status'' \<noteq> Some ''not_detected''
          \<and> (getitem f ''type'' = Some ''cve_test'' \<longrightarrow> detected f)"
  proof
    fix f assume "f \<in> set (findings s')"
    with n(1) e consider "f \<in> set new1" | "f \<in> set new2" by auto
    then show "getitem f ''status'' \<noteq> Some ''not_detected''
          \<and> (getitem f ''type'' = Some ''cve_test'' \<longrightarrow> detected f)"
    proof cases
      case 1
      from g1 [OF this] show ?thesis by simp
    next
      case 2
      from g2 [OF this] show ?thesis by (auto simp: detected_def)
    qed
  qed
  show "\<forall>file fs. JsonDump file fs \<in> set ev \<longrightarrow>
            (\<forall>f \<in> set fs. getitem f ''status'' \<noteq> Some ''not_detected'')"
  proof (intro allI impI)
    fix fl fs assume "JsonDump fl fs \<in> set ev"
    from run_dumps [OF run this] have "fs = findings s'" by simp
    with good show "\<forall>f \<in> set fs. getitem f ''status'' \<noteq> Some ''not_detected''" by blast
  qed
next
  assume t: "cve_task net s t = (s1, ev1, Inr f)"
  from cve_task_props(5) [OF t]
  show "getitem f ''status'' = Some ''not_detected'' \<Longrightarrow> findings s1 = findings s" by simp
  from cve_task_props(2) [OF t]
  show "findings s1 = findings s \<or> findings s1 = findings s @ [f] \<and> detected f" by auto
qed

lemma vpn_task_run: "cve_task demo_net demo_scanner vpn_task = (demo_scanner, vpn_events, Inr vpn_finding)"
  by (simp add: cve_task_def demo_net_def demo_scanner_def WebVulnScanner_def rstrip_slash_def
      robust_get_def truthy_resp_def ok_def Let_def vpn_task_def vpn_events_def vpn_finding_def)

theorem no_not_detected_record_witness:
  "run demo_net demo_sched (WebVulnScanner ''http://h/'' 7 8 (Some ''out.json''))
     = Some (demo_final, demo_events, None)
   \<and> JsonDump ''out.json'' demo_findings \<in> set demo_events
   \<and> list_all detected (tl demo_findings)
   \<and> getitem (hd demo_findings) ''status'' = None
   \<and> cve_task demo_net demo_scanner vpn_task = (demo_scanner, vpn_events, Inr vpn_finding)
   \<and> getitem vpn_finding ''status'' = Some ''not_detected''
   \<and> findings demo_scanner = findings demo_scanner"
proof -
  have r: "run demo_net demo_sched (WebVulnScanner ''http://h/'' 7 8 (Some ''out.json''))
     = Some (demo_final, demo_events, None)"
    using demo_run by (simp add: demo_scanner_def)
  have d: "JsonDump ''out.json'' demo_findings \<in> set demo_events" by (simp add: demo_events_def)
  have f: "findings demo_final = demo_findings" by (simp add: demo_final_def)
  have v: "getitem vpn_finding ''status'' = Some ''not_detected''" by (simp add: vpn_finding_def)
  from no_not_detected_record [of demo_net demo_sched "''http://h/''" 7 8 "Some ''out.json''"
      demo_final demo_events None demo_scanner vpn_task demo_scanner vpn_events vpn_finding]
    r vpn_task_run f
  have "\<forall>f \<in> set demo_findings. getitem f ''status'' \<noteq> Some ''not_detected''
          \<and> (getitem f ''type'' = Some ''cve_test'' \<longrightarrow> detected f)"
    by simp
  then have "list_all detected (tl demo_findings)" "getitem (hd demo_findings) ''status'' = None"
    by (simp_all add: demo_findings_def)
  with r d vpn_task_run v show ?thesis by simp
qed

subsection \<open>The target and the requested URLs\<close>

lemma rstrip_slash_props:
  "\<exists>n. tgt = rstrip_slash tgt @ replicate n CHR ''/''"
  "rstrip_slash tgt = [] \<or> last (rstrip_slash tgt) \<noteq> CHR ''/''"
proof -
  let ?P = "\<lambda>c. c = CHR ''/''"
  have t: "takeWhile ?P xs = replicate (length (takeWhile ?P xs)) CHR ''/''" for xs :: string
    by (induction xs) auto
  have "rev (takeWhile ?P (rev tgt) @ dropWhile ?P (rev tgt)) = tgt" by simp
  then have "rev (dropWhile ?P (rev tgt)) @ rev (takeWhile ?P (rev tgt)) = tgt"
    by (simp only: rev_append)
  then have "tgt = rstrip_slash tgt @ rev (takeWhile ?P (rev tgt))"
    unfolding rstrip_slash_def by (rule sym)
  with t [of "rev tgt"] have
    "tgt = rstrip_slash tgt @ replicate (length (takeWhile ?P (rev tgt))) CHR ''/''"
    by (metis rev_replicate)
  then show "\<exists>n. tgt = rstrip_slash tgt @ replicate n CHR ''/''" ..
  show "rstrip_slash tgt = [] \<or> last (rstrip_slash tgt) \<noteq> CHR ''/''"
  proof (cases "dropWhile ?P (rev tgt)")
    case Nil
    then show ?thesis by (simp add: rstrip_slash_def)
  next
    case (Cons c cs)
    with hd_dropWhile [of ?P "rev tgt"] have "c \<noteq> CHR ''/''" by auto
    with Cons show ?thesis by (simp add: rstrip_slash_def)
  qed
qed

lemma rstrip_slash_twice: "rstrip_slash ''http://h//'' = ''http://h''"
  by (simp add: rstrip_slash_def)

lemma reachable_target:
  assumes "reachable net s p"
  shows "target (scan p) = target s" and "timeout (scan p) = timeout s"
  using reachable_pool_inv [OF assms] by (simp_all add: pool_inv_def same_config_def)

lemma run_requests:
  assumes "run net sched s = Some (s', ev, r)" and "HttpGet url t \<in> set ev"
  shows "t = timeout s \<and>
         (\<exists>pth. (pth \<in> set COMMON_PATHS \<or> pth \<in> set (map (path \<circ> snd) CVE_PATHS))
                \<and> url = target s @ pth)"
proof -
  from run_cases [OF assms(1)] obtain s1 ev1 ev2 where
    c: "check_common_paths net sched s = Some (s1, ev1)"
       "check_cve_signatures net s1 = (s', ev2, r)"
       "ev = ev1 @ ev2 @
                 (if r = None
                  then save_results_json s' @ [PrintDone, PrintFindingsHeader]
                         @ map PrintFinding (findings s')
                  else [])" by blast
  from check_common_paths_Some [OF c(1)] obtain p where
    p: "reachable net s p" "pc p = Finished" "s1 = scan p" "ev1 = trace p" by blast
  from reachable_target [OF p(1)] p(3) have s1: "target s1 = target s" "timeout s1 = timeout s"
    by simp_all
  from assms(2) c(3) consider "HttpGet url t \<in> set ev1" | "HttpGet url t \<in> set ev2"
    by (auto simp: save_results_json_def split: if_splits)
  then show ?thesis
  proof cases
    case 1
    then have "HttpGet url t \<in># mset (filter is_get (trace p))" using p(4) by simp
    with requests_bounded [OF p(1)] have "HttpGet url t \<in># mset (map (req s) COMMON_PATHS)"
      by (rule mset_subset_eqD)
    then show ?thesis by (auto simp: req_def)
  next
    case 2
    then have "HttpGet url t \<in> set (filter is_get ev2)" by simp
    moreover from check_cve_signatures_props(4) [OF c(2)] obtain k where
      "filter is_get ev2 = map (cve_req s1) (take k CVE_PATHS)" by blast
    ultimately obtain x where "x \<in> set (take k CVE_PATHS)" "HttpGet url t = cve_req s1 x"
      by auto
    with s1 show ?thesis by (auto simp: cve_req_def dest: in_set_takeD)
  qed
qed

lemma run_settings:
  assumes "run net sched s = Some (s', ev, r)"
  shows "same_settings s s'"
proof -
  from run_cases [OF assms] obtain s1 ev1 ev2 where
    c: "check_common_paths net sched s = Some (s1, ev1)"
       "check_cve_signatures net s1 = (s', ev2, r)" by blast
  from check_common_paths_Some [OF c(1)] obtain p where
    p: "reachable net s p" "pc p = Finished" "s1 = scan p" by blast
  from finished_pool(2-5) [OF p(1,2)] p(3) have "same_settings s s1"
    by (simp add: same_settings_def)
  from this check_cve_signatures_props(1) [OF c(2)] show ?thesis by (rule same_settings_trans)
qed

lemma reachable_requests:
  assumes "reachable net s p" and "HttpGet url tm \<in> set (trace p)"
  shows "tm = timeout s \<and> (\<exists>pth \<in> set COMMON_PATHS. url = target s @ pth)"
proof -
  from assms(2) have "HttpGet url tm \<in># mset (filter is_get (trace p))" by simp
  with requests_bounded [OF assms(1)] have "HttpGet url tm \<in># mset (map (req s) COMMON_PATHS)"
    by (rule mset_subset_eqD)
  then show ?thesis by (auto simp: req_def)
qed

lemma cve_phase_requests:
  assumes "check_cve_signatures net s = (s', ev, r)" and "HttpGet url tm \<in> set ev"
  shows "tm = timeout s \<and> (\<exists>t \<in> set CVE_PATHS. url = target s @ path (snd t))"
proof -
  from assms(2) have "HttpGet url tm \<in> set (filter is_get ev)" by simp
  moreover from check_cve_signatures_props(4) [OF assms(1)] obtain k where
    "filter is_get ev = map (cve_req s) (take k CVE_PATHS)" by blast
  ultimately obtain x where "x \<in> set (take k CVE_PATHS)" "HttpGet url tm = cve_req s x"
    by auto
  then show ?thesis by (auto simp: cve_req_def dest: in_set_takeD)
qed

lemma worker_request:
  assumes "i < length (workers p)" and "workers p ! i = Got (Some pth)"
  shows "\<exists>p'. worker_step net p i = Some p' \<and> scan p' = scan p
           \<and> filter is_get (trace p')
               = filter is_get (trace p) @ [HttpGet (target (scan p) @ pth) (timeout (scan p))]"
proof -
  obtain r ev where g: "robust_get net (target (scan p) @ pth) (timeout (scan p)) = (r, ev)"
    by (cases "robust_get net (target (scan p) @ pth) (timeout (scan p))") auto
  with robust_get_events(1) [of net "target (scan p) @ pth" "timeout (scan p)"]
  have "filter is_get ev = [HttpGet (target (scan p) @ pth) (timeout (scan p))]" by simp
  with assms g show ?thesis
    by (cases r) (simp_all add: worker_step_def Let_def)
qed

text \<open>
  Claim C9. The constructor stores the target without its trailing slashes
  (\<^verbatim>\<open>target.rstrip('/')\<close>): the input is the stored target followed by slashes only, and the
  stored target does not end with a slash. Nothing changes the target afterwards: not a
  step of a thread of the pool, not an iteration of the CVE loop, not the CVE phase, not
  the run. Every request is for the stored target followed by the path of its task: the
  worker that holds a path requests the target followed by that path, and every request
  sent by the pool, in any state it can reach, is for the target followed by a path of
  \<^verbatim>\<open>COMMON_PATHS\<close>; an iteration of the CVE loop requests the target followed by the path of
  its entry, and every request of the CVE phase is for the target followed by the path of
  an entry of \<^verbatim>\<open>CVE_PATHS\<close>.
\<close>

theorem target_normalized_and_probed:
  "target (WebVulnScanner tgt tmo thr out) = rstrip_slash tgt
   \<and> (\<exists>n. tgt = rstrip_slash tgt @ replicate n CHR ''/'')
   \<and> (rstrip_slash tgt = [] \<or> last (rstrip_slash tgt) \<noteq> CHR ''/'')
   \<and> (reachable net s p \<longrightarrow>
         target (scan p) = target s
         \<and> (\<forall>url tm. HttpGet url tm \<in> set (trace p) \<longrightarrow>
               (\<exists>pth \<in> set COMMON_PATHS. url = target s @ pth)))
   \<and> (i < length (workers p) \<and> workers p ! i = Got (Some pth) \<longrightarrow>
         (\<exists>p'. worker_step net p i = Some p' \<and> scan p' = scan p
            \<and> filter is_get (trace p')
                = filter is_get (trace p) @ [HttpGet (target (scan p) @ pth) (timeout (scan p))]))
   \<and> (cve_task net s t = (s1, ev1, r1) \<longrightarrow>
         target s1 = target s \<and> filter is_get ev1 = [HttpGet (target s @ path (snd t)) (timeout s)])
   \<and> (check_cve_signatures net s = (s2, ev2, r2) \<longrightarrow>
         target s2 = target s
         \<and> (\<forall>url tm. HttpGet url tm \<in> set ev2 \<longrightarrow>
               (\<exists>t \<in> set CVE_PATHS. url = target s @ path (snd t))))
   \<and> (run net sched (WebVulnScanner tgt tmo thr out) = Some (s', ev, r) \<longrightarrow>
         target s' = rstrip_slash tgt
         \<and> (\<forall>url tm. HttpGet url tm \<in> set ev \<longrightarrow>
               (\<exists>pth. (pth \<in> set COMMON_PATHS \<or> pth \<in> set (map (path \<circ> snd) CVE_PATHS))
                      \<and> url = rstrip_slash tgt @ pth)))"
proof (intro conjI impI allI)
  show "target (WebVulnScanner tgt tmo thr out) = rstrip_slash tgt"
    by (simp add: WebVulnScanner_def)
  show "\<exists>n. tgt = rstrip_slash tgt @ replicate n CHR ''/''" by (rule rstrip_slash_props(1))
  show "rstrip_slash tgt = [] \<or> last (rstrip_slash tgt) \<noteq> CHR ''/''"
    by (rule rstrip_slash_props(2))
  show "target (scan p) = target s" if "reachable net s p"
    using that by (rule reachable_target(1))
  show "\<exists>pth \<in> set COMMON_PATHS. url = target s @ pth"
    if "reachable net s p" and "HttpGet url tm \<in> set (trace p)" for url tm
    using reachable_requests [OF that] by simp
  show "\<exists>p'. worker_step net p i = Some p' \<and> scan p' = scan p
            \<and> filter is_get (trace p')
                = filter is_get (trace p) @ [HttpGet (target (scan p) @ pth) (timeout (scan p))]"
    if "i < length (workers p) \<and> workers p ! i = Got (Some pth)"
    using that worker_request by blast
next
  assume t: "cve_task net s t = (s1, ev1, r1)"
  from cve_task_props(1) [OF t] show "target s1 = target s" by (simp add: same_settings_def)
  from cve_task_props(3) [OF t]
  show "filter is_get ev1 = [HttpGet (target s @ path (snd t)) (timeout s)]"
    by (simp add: cve_req_def)
next
  assume c: "check_cve_signatures net s = (s2, ev2, r2)"
  from check_cve_signatures_props(1) [OF c] show "target s2 = target s"
    by (simp add: same_settings_def)
  fix url tm assume "HttpGet url tm \<in> set ev2"
  from cve_phase_requests [OF c this]
  show "\<exists>t \<in> set CVE_PATHS. url = target s @ path (snd t)" by simp
next
  assume r: "run net sched (WebVulnScanner tgt tmo thr out) = Some (s', ev, r)"
  from run_settings [OF r] show "target s' = rstrip_slash tgt"
    by (simp add: same_settings_def WebVulnScanner_def)
  fix url tm assume "HttpGet url tm \<in> set ev"
  from run_requests [OF r this]
  show "\<exists>pth. (pth \<in> set COMMON_PATHS \<or> pth \<in> set (map (path \<circ> snd) CVE_PATHS))
                      \<and> url = rstrip_slash tgt @ pth"
    by (simp add: WebVulnScanner_def)
qed

lemma probing_pool_worker:
  "0 < length (workers probing_pool) \<and> workers probing_pool ! 0 = Got (Some ''/admin'')"
  by code_simp

lemma probing_pool_request:
  "worker_step demo_net probing_pool 0
     = Some (probing_pool\<lparr>workers := [Probed ''http://h/admin''
                                          (Some \<lparr>status_code = 200, resp_text = ''admin''\<rparr>)],
                           trace := [PrintScanningPaths ''http://h'', HttpGet ''http://h/admin'' 7]\<rparr>)"
  by code_simp

lemma demo_cve_phase:
  "check_cve_signatures demo_net demo_scanner = (demo_cve_only, demo_cve_events, None)"
  by code_simp

theorem target_normalized_and_probed_witness:
  "target (WebVulnScanner ''http://h/'' 7 8 (Some ''out.json'')) = ''http://h''
   \<and> ''http://h/'' = ''http://h'' @ replicate 1 CHR ''/''
   \<and> reachable demo_net demo_scanner probing_pool
   \<and> target (scan probing_pool) = ''http://h''
   \<and> 0 < length (workers probing_pool) \<and> workers probing_pool ! 0 = Got (Some ''/admin'')
   \<and> (\<exists>p'. worker_step demo_net probing_pool 0 = Some p'
          \<and> filter is_get (trace p')
              = filter is_get (trace probing_pool) @ [HttpGet (''http://h'' @ ''/admin'') 7])
   \<and> cve_task demo_net demo_scanner vpn_task = (demo_scanner, vpn_events, Inr vpn_finding)
   \<and> filter is_get vpn_events = [HttpGet (''http://h'' @ ''/vpn/../vpns/'') 7]
   \<and> check_cve_signatures demo_net demo_scanner = (demo_cve_only, demo_cve_events, None)
   \<and> target demo_cve_only = ''http://h''
   \<and> HttpGet ''http://h/vpn/../vpns/'' 7 \<in> set demo_cve_events
   \<and> (\<exists>t \<in> set CVE_PATHS. ''http://h/vpn/../vpns/'' = ''http://h'' @ path (snd t))
   \<and> run demo_net demo_sched (WebVulnScanner ''http://h/'' 7 8 (Some ''out.json''))
       = Some (demo_final, demo_events, None)
   \<and> target demo_final = ''http://h''
   \<and> HttpGet ''http://h/admin'' 7 \<in> set demo_events
   \<and> (\<exists>pth. (pth \<in> set COMMON_PATHS \<or> pth \<in> set (map (path \<circ> snd) CVE_PATHS))
            \<and> ''http://h/admin'' = ''http://h'' @ pth)"
proof -
  have n: "rstrip_slash ''http://h/'' = ''http://h''" by (simp add: rstrip_slash_def)
  have r: "run demo_net demo_sched (WebVulnScanner ''http://h/'' 7 8 (Some ''out.json''))
     = Some (demo_final, demo_events, None)"
    using demo_run by (simp add: demo_scanner_def)
  have g: "HttpGet ''http://h/admin'' 7 \<in> set demo_events"
    by (simp add: demo_events_def demo_path_events_def)
  have c: "HttpGet ''http://h/vpn/../vpns/'' 7 \<in> set demo_cve_events"
    by (simp add: demo_cve_events_def)
  have s: "reachable demo_net demo_scanner probing_pool"
    unfolding probing_pool_def by (rule reachable_sched)
  have d: "target demo_scanner = ''http://h''" "timeout demo_scanner = 7"
    by (simp_all add: demo_scanner_def WebVulnScanner_def rstrip_slash_def)
  have v: "path (snd vpn_task) = ''/vpn/../vpns/''" by (simp add: vpn_task_def)
  have one: "''http://h/'' = ''http://h'' @ replicate 1 CHR ''/''" by simp
  note t = target_normalized_and_probed [of "''http://h/''" 7 8 "Some ''out.json''" demo_net
      demo_scanner probing_pool 0 "''/admin''"
      vpn_task demo_scanner vpn_events "Inr vpn_finding"
      demo_cve_only demo_cve_events None
      demo_sched demo_final demo_events None]
  note k4 = t [THEN conjunct2, THEN conjunct2, THEN conjunct2, THEN conjunct1]
  note k5 = t [THEN conjunct2, THEN conjunct2, THEN conjunct2, THEN conjunct2, THEN conjunct1]
  note k6 = t [THEN conjunct2, THEN conjunct2, THEN conjunct2, THEN conjunct2, THEN conjunct2,
      THEN conjunct1]
  note k7 = t [THEN conjunct2, THEN conjunct2, THEN conjunct2, THEN conjunct2, THEN conjunct2,
      THEN conjunct2, THEN conjunct1]
  note k8 = t [THEN conjunct2, THEN conjunct2, THEN conjunct2, THEN conjunct2, THEN conjunct2,
      THEN conjunct2, THEN conjunct2]
  from k4 s d have a1: "target (scan probing_pool) = ''http://h''" by simp
  from reachable_target(2) [OF s] d have tm: "timeout (scan probing_pool) = 7" by simp
  from k5 probing_pool_worker have "\<exists>p'. worker_step demo_net probing_pool 0 = Some p'
          \<and> scan p' = scan probing_pool
          \<and> filter is_get (trace p')
              = filter is_get (trace probing_pool)
                @ [HttpGet (target (scan probing_pool) @ ''/admin'') (timeout (scan probing_pool))]"
    by (rule mp)
  then have a2: "\<exists>p'. worker_step demo_net probing_pool 0 = Some p'
          \<and> filter is_get (trace p')
              = filter is_get (trace probing_pool) @ [HttpGet (''http://h'' @ ''/admin'') 7]"
    unfolding a1 tm by blast
  from k6 vpn_task_run d v
  have a3: "filter is_get vpn_events = [HttpGet (''http://h'' @ ''/vpn/../vpns/'') 7]" by simp
  from k7 demo_cve_phase have k7': "target demo_cve_only = target demo_scanner
         \<and> (\<forall>url tm. HttpGet url tm \<in> set demo_cve_events \<longrightarrow>
               (\<exists>t \<in> set CVE_PATHS. url = target demo_scanner @ path (snd t)))"
    by (rule mp)
  with d c have a4: "target demo_cve_only = ''http://h''"
    "\<exists>t \<in> set CVE_PATHS. ''http://h/vpn/../vpns/'' = ''http://h'' @ path (snd t)"
    by (simp, metis)
  from k8 r have k8': "target demo_final = rstrip_slash ''http://h/''
         \<and> (\<forall>url tm. HttpGet url tm \<in> set demo_events \<longrightarrow>
               (\<exists>pth. (pth \<in> set COMMON_PATHS \<or> pth \<in> set (map (path \<circ> snd) CVE_PATHS))
                      \<and> url = rstrip_slash ''http://h/'' @ pth))"
    by (rule mp)
  with g have a5: "target demo_final = ''http://h''"
    "\<exists>pth. (pth \<in> set COMMON_PATHS \<or> pth \<in> set (map (path \<circ> snd) CVE_PATHS))
            \<and> ''http://h/admin'' = ''http://h'' @ pth"
    unfolding n by (simp, metis)
  from t [THEN conjunct1] n
  have a0: "target (WebVulnScanner ''http://h/'' 7 8 (Some ''out.json'')) = ''http://h''"
    by simp
  from a0 one s a1 probing_pool_worker a2 vpn_task_run a3 demo_cve_phase a4 c r a5 g
  show ?thesis by blast
qed

subsection \<open>The order of the phases\<close>

lemma robust_get_classes:
  "list_all paths_event (snd (robust_get net url tmo))"
  "list_all cve_event (snd (robust_get net url tmo))"
  by (cases "net url tmo"; simp add: robust_get_def)+

lemma paths_event_step:
  assumes "list_all paths_event (trace p)" and "step net p t = Some p'"
  shows "list_all paths_event (trace p')"
proof (cases t)
  case MainThread
  with assms main_step_frame(2) [of p p'] show ?thesis by simp
next
  case (Worker i)
  with assms have w: "worker_step net p i = Some p'" by simp
  have "list_all paths_event ev"
    if "robust_get net url tmo = (r, ev)" for url tmo r ev
    using robust_get_classes(1) [of net url tmo] that by simp
  with w assms(1) show ?thesis
    by (auto simp: worker_step_def Let_def exposed_print_def
        split: wstate.splits list.splits option.splits if_splits prod.splits sum.splits)
qed

lemma reachable_paths_events: "reachable net s p \<Longrightarrow> list_all paths_event (trace p)"
  by (induction rule: reachable.induct) (auto simp: start_pool_def intro: paths_event_step)

lemma cve_task_events:
  assumes "cve_task net s t = (s1, ev, r)"
  shows "list_all cve_event ev"
proof -
  obtain r0 ev0 where g: "robust_get net (target s @ path (snd t)) (timeout s) = (r0, ev0)"
    by (cases "robust_get net (target s @ path (snd t)) (timeout s)") auto
  with robust_get_classes(2) [of net "target s @ path (snd t)" "timeout s"]
  have "list_all cve_event ev0" by simp
  with assms g show ?thesis
    by (auto simp: cve_task_def Let_def split: sum.splits if_splits)
qed

lemma cve_loop_events:
  "cve_loop net ts s = (s', ev, r) \<Longrightarrow> list_all cve_event ev"
proof (induction ts arbitrary: s s' ev r)
  case Nil
  then show ?case by simp
next
  case (Cons t ts)
  obtain s1 ev1 r1 where t: "cve_task net s t = (s1, ev1, r1)"
    by (cases "cve_task net s t") auto
  note e1 = cve_task_events [OF t]
  show ?case
  proof (cases r1)
    case (Inl e)
    with t Cons.prems e1 show ?thesis by simp
  next
    case (Inr f)
    obtain s2 ev2 r2 where l: "cve_loop net ts s1 = (s2, ev2, r2)"
      by (cases "cve_loop net ts s1") auto
    with t Inr Cons.prems have "ev = ev1 @ ev2" by simp
    with e1 Cons.IH [OF l] show ?thesis by simp
  qed
qed

lemma check_cve_signatures_events:
  assumes "check_cve_signatures net s = (s', ev, r)"
  shows "list_all cve_event ev"
proof -
  obtain ev0 where l: "cve_loop net CVE_PATHS s = (s', ev0, r)" and e: "ev = PrintScanningCVEs # ev0"
    using assms by (cases "cve_loop net CVE_PATHS s") (auto simp: check_cve_signatures_def)
  from cve_loop_events [OF l] e show ?thesis by simp
qed

lemma cve_task_returns:
  assumes "\<forall>e. net (target s @ path (snd t)) (timeout s) \<noteq> RaisesOther e"
  shows "\<exists>s1 ev f. cve_task net s t = (s1, ev, Inr f)"
proof (cases "net (target s @ path (snd t)) (timeout s)")
  case (Returns resp)
  then show ?thesis by (simp add: cve_task_def robust_get_def Let_def)
next
  case (RaisesRequestException e)
  then show ?thesis by (simp add: cve_task_def robust_get_def Let_def truthy_resp_def)
next
  case (RaisesOther e)
  with assms show ?thesis by simp
qed

lemma cve_loop_returns:
  "\<forall>t \<in> set ts. \<forall>e. net (target s @ path (snd t)) (timeout s) \<noteq> RaisesOther e
   \<Longrightarrow> \<exists>s' ev. cve_loop net ts s = (s', ev, None)"
proof (induction ts arbitrary: s)
  case Nil
  show ?case by simp
next
  case (Cons t ts)
  from Cons.prems have "\<forall>e. net (target s @ path (snd t)) (timeout s) \<noteq> RaisesOther e" by simp
  with cve_task_returns [of net s t] obtain s1 ev1 f where t: "cve_task net s t = (s1, ev1, Inr f)"
    by blast
  from cve_task_props(1) [OF t] have "target s1 = target s" "timeout s1 = timeout s"
    by (simp_all add: same_settings_def)
  with Cons.prems have "\<forall>t \<in> set ts. \<forall>e. net (target s1 @ path (snd t)) (timeout s1) \<noteq> RaisesOther e"
    by simp
  with Cons.IH [of s1] obtain s2 ev2 where "cve_loop net ts s1 = (s2, ev2, None)" by blast
  with t show ?case by simp
qed

lemma check_cve_signatures_returns:
  assumes "no_other_cve net s"
  shows "\<exists>s' ev. check_cve_signatures net s = (s', ev, None)"
proof -
  from assms cve_loop_returns [of CVE_PATHS net s] obtain s' ev where
    "cve_loop net CVE_PATHS s = (s', ev, None)" by (auto simp: no_other_cve_def)
  then show ?thesis by (simp add: check_cve_signatures_def)
qed

lemma run_can_return:
  assumes "0 < threads s" and "no_other net s" and "no_other_cve net s"
  shows "\<exists>more s' ev. run net (sched @ more) s = Some (s', ev, None)
           \<and> (truthy_output (integration_output s) \<longrightarrow>
                JsonDump (the (integration_output s)) (findings s') \<in> set ev)"
proof -
  from common_paths_can_return [OF assms(1,2), of sched] obtain more s1 ev1 where
    c: "check_common_paths net (sched @ more) s = Some (s1, ev1)" by blast
  from check_common_paths_Some [OF c] obtain p where
    p: "reachable net s p" "pc p = Finished" "s1 = scan p" by blast
  note f = finished_pool [OF p(1,2)]
  from f(2,3) p(3) assms(3) have "no_other_cve net s1" by (simp add: no_other_cve_def)
  from check_cve_signatures_returns [OF this] obtain s' ev2 where
    v: "check_cve_signatures net s1 = (s', ev2, None)" by blast
  from check_cve_signatures_props(1) [OF v] f(5) p(3)
  have o: "integration_output s' = integration_output s" by (simp add: same_settings_def)
  let ?ev = "ev1 @ ev2 @ save_results_json s' @ [PrintDone, PrintFindingsHeader]
               @ map PrintFinding (findings s')"
  from c v have "run net (sched @ more) s = Some (s', ?ev, None)" by (simp add: run_def)
  moreover from o have "truthy_output (integration_output s) \<longrightarrow>
      JsonDump (the (integration_output s)) (findings s') \<in> set ?ev"
    by (simp add: save_results_json_def)
  ultimately show ?thesis by blast
qed

lemma run_phases:
  assumes "run net sched s = Some (s', ev, r)"
  shows "\<exists>s1 ev1 ev2 new1 new2.
           check_common_paths net sched s = Some (s1, ev1)
           \<and> check_cve_signatures net s1 = (s', ev2, r)
           \<and> ev = ev1 @ ev2 @
                 (if r = None
                  then save_results_json s' @ [PrintDone, PrintFindingsHeader]
                         @ map PrintFinding (findings s')
                  else [])
           \<and> findings s1 = findings s @ new1
           \<and> mset new1 = mset (map (exposed_path_finding s) (filter (status_200 net s) COMMON_PATHS))
           \<and> findings s' = findings s @ new1 @ new2
           \<and> list_all detected new2"
proof -
  from run_cases [OF assms] obtain s1 ev1 ev2 where
    c: "check_common_paths net sched s = Some (s1, ev1)"
       "check_cve_signatures net s1 = (s', ev2, r)"
       "ev = ev1 @ ev2 @
                 (if r = None
                  then save_results_json s' @ [PrintDone, PrintFindingsHeader]
                         @ map PrintFinding (findings s')
                  else [])" by blast
  from common_paths_returned [OF c(1)] obtain new1 where
    n1: "findings s1 = findings s @ new1"
        "mset new1 = mset (map (exposed_path_finding s) (filter (status_200 net s) COMMON_PATHS))"
    by blast
  from check_cve_signatures_props(2) [OF c(2)] obtain new2 where
    n2: "findings s' = findings s1 @ new2" "list_all detected new2" by blast
  from n1(1) n2(1) have "findings s' = findings s @ new1 @ new2" by simp
  with c n1 n2(2) show ?thesis by blast
qed

text \<open>
  Claim C7. While the common-paths phase has not returned, only events of that phase
  happen and \<^verbatim>\<open>self.findings\<close> is as it was. When it returns, it is complete: the request of
  every path has been sent, no path is left in the queue, every worker thread has ended,
  and \<^verbatim>\<open>self.findings\<close> holds the earlier findings followed by all the common-path findings.
  The CVE phase starts from there, produces only events of its own, and appends its
  findings behind those. A run that ends is the events of the common-paths phase, then the
  events of the CVE phase, then (unless an exception ended the CVE phase) the export and
  the report; whatever is handed to \<^verbatim>\<open>json.dump\<close> is the findings of both phases. When the
  number of threads is positive and no request raises an exception other than
  \<^verbatim>\<open>RequestException\<close>, every run can be continued to its end, and the export happens when
  an output file is set.
\<close>

theorem phases_in_order:
  "(reachable net s p \<longrightarrow>
      list_all paths_event (trace p) \<and> (pc p \<noteq> Finished \<longrightarrow> findings (scan p) = findings s))
   \<and> (check_common_paths net sched s = Some (s1, ev1) \<longrightarrow>
        list_all paths_event ev1
        \<and> mset (filter is_get ev1) = mset (map (req s) COMMON_PATHS)
        \<and> (\<exists>p. reachable net s p \<and> pc p = Finished \<and> s1 = scan p \<and> ev1 = trace p
               \<and> list_all stopped (workers p) \<and> qtasks (pathq p) = [])
        \<and> (\<exists>new1. findings s1 = findings s @ new1
               \<and> mset new1
                   = mset (map (exposed_path_finding s) (filter (status_200 net s) COMMON_PATHS))))
   \<and> (check_cve_signatures net s1 = (s2, ev2, r2) \<longrightarrow>
        list_all cve_event ev2
        \<and> (\<exists>new2. findings s2 = findings s1 @ new2 \<and> list_all detected new2))
   \<and> (run net sched s = Some (s', ev, r) \<longrightarrow>
        (\<exists>s1 ev1 ev2 new1 new2.
            check_common_paths net sched s = Some (s1, ev1)
            \<and> check_cve_signatures net s1 = (s', ev2, r)
            \<and> ev = ev1 @ ev2 @
                  (if r = None
                   then save_results_json s' @ [PrintDone, PrintFindingsHeader]
                          @ map PrintFinding (findings s')
                   else [])
            \<and> findings s1 = findings s @ new1
            \<and> mset new1
                = mset (map (exposed_path_finding s) (filter (status_200 net s) COMMON_PATHS))
            \<and> findings s' = findings s @ new1 @ new2
            \<and> list_all detected new2)
        \<and> (\<forall>fl fs. JsonDump fl fs \<in> set ev \<longrightarrow> r = None \<and> fs = findings s'))
   \<and> (0 < threads s \<and> no_other net s \<and> no_other_cve net s \<longrightarrow>
        (\<forall>sched. \<exists>more s' ev.
            run net (sched @ more) s = Some (s', ev, None)
            \<and> (truthy_output (integration_output s) \<longrightarrow>
                 JsonDump (the (integration_output s)) (findings s') \<in> set ev)))"
proof (intro conjI impI allI)
  show "list_all paths_event (trace p)" if "reachable net s p"
    using that by (rule reachable_paths_events)
  show "findings (scan p) = findings s" if "reachable net s p" and "pc p \<noteq> Finished"
    using that by (rule unreturned_findings)
next
  assume c: "check_common_paths net sched s = Some (s1, ev1)"
  from check_common_paths_Some [OF c] obtain p where
    p: "reachable net s p" "pc p = Finished" "s1 = scan p" "ev1 = trace p" by blast
  from p(2) have j: "joined (pc p)" by simp
  note jp = joined_pool [OF p(1) j]
  from reachable_paths_events [OF p(1)] p(4) show "list_all paths_event ev1" by simp
  from jp(1) p(4) show "mset (filter is_get ev1) = mset (map (req s) COMMON_PATHS)" by simp
  from threads_ended [OF p(1)] p(2) have "list_all stopped (workers p)" by simp
  with p jp(3)
  show "\<exists>p. reachable net s p \<and> pc p = Finished \<and> s1 = scan p \<and> ev1 = trace p
               \<and> list_all stopped (workers p) \<and> qtasks (pathq p) = []" by blast
  from c show "\<exists>new1. findings s1 = findings s @ new1
               \<and> mset new1
                   = mset (map (exposed_path_finding s) (filter (status_200 net s) COMMON_PATHS))"
    by (rule common_paths_returned)
next
  assume v: "check_cve_signatures net s1 = (s2, ev2, r2)"
  from v show "list_all cve_event ev2" by (rule check_cve_signatures_events)
  from v show "\<exists>new2. findings s2 = findings s1 @ new2 \<and> list_all detected new2"
    by (rule check_cve_signatures_props(2))
next
  assume r: "run net sched s = Some (s', ev, r)"
  from r show "\<exists>s1 ev1 ev2 new1 new2.
            check_common_paths net sched s = Some (s1, ev1)
            \<and> check_cve_signatures net s1 = (s', ev2, r)
            \<and> ev = ev1 @ ev2 @
                  (if r = None
                   then save_results_json s' @ [PrintDone, PrintFindingsHeader]
                          @ map PrintFinding (findings s')
                   else [])
            \<and> findings s1 = findings s @ new1
            \<and> mset new1
                = mset (map (exposed_path_finding s) (filter (status_200 net s) COMMON_PATHS))
            \<and> findings s' = findings s @ new1 @ new2
            \<and> list_all detected new2"
    by (rule run_phases)
  fix fl fs assume d: "JsonDump fl fs \<in> set ev"
  from run_dumps [OF r d] show "r = None" and "fs = findings s'" by simp_all
next
  fix sched0
  assume a: "0 < threads s \<and> no_other net s \<and> no_other_cve net s"
  then show "\<exists>more s' ev.
            run net (sched0 @ more) s = Some (s', ev, None)
            \<and> (truthy_output (integration_output s) \<longrightarrow>
                 JsonDump (the (integration_output s)) (findings s') \<in> set ev)"
    using run_can_return [of s net sched0] by blast
qed

lemma demo_no_other_cve: "no_other_cve demo_net demo_scanner"
  by (auto simp: no_other_cve_def demo_net_def demo_scanner_def WebVulnScanner_def)

theorem phases_in_order_witness:
  "0 < threads demo_scanner \<and> no_other demo_net demo_scanner \<and> no_other_cve demo_net demo_scanner
   \<and> reachable demo_net demo_scanner (start_pool demo_scanner)
   \<and> check_common_paths demo_net demo_sched demo_scanner =
       Some (demo_scanner\<lparr>findings := [[(''type'', ''exposed_path''), (''url'', ''http://h/admin'')]]\<rparr>,
             demo_path_events)
   \<and> check_cve_signatures demo_net
        (demo_scanner\<lparr>findings := [[(''type'', ''exposed_path''), (''url'', ''http://h/admin'')]]\<rparr>)
       = (demo_final, demo_cve_events, None)
   \<and> run demo_net demo_sched demo_scanner = Some (demo_final, demo_events, None)
   \<and> findings demo_final = demo_findings
   \<and> JsonDump ''out.json'' demo_findings \<in> set demo_events
   \<and> list_all paths_event demo_path_events
   \<and> list_all cve_event demo_cve_events
   \<and> mset (filter is_get demo_path_events) = mset (map (req demo_scanner) COMMON_PATHS)
   \<and> truthy_output (integration_output demo_scanner)
   \<and> (\<exists>more s' ev.
         run demo_net ([MainThread, Worker 0] @ more) demo_scanner = Some (s', ev, None)
         \<and> JsonDump (the (integration_output demo_scanner)) (findings s') \<in> set ev)"
proof -
  let ?s1 = "demo_scanner\<lparr>findings := [[(''type'', ''exposed_path''), (''url'', ''http://h/admin'')]]\<rparr>"
  have t: "0 < threads demo_scanner" "truthy_output (integration_output demo_scanner)"
    by (simp_all add: demo_scanner_def WebVulnScanner_def truthy_output_def)
  have c: "check_common_paths demo_net demo_sched demo_scanner = Some (?s1, demo_path_events)"
    using demo_run_paths by (simp add: demo_path_events_def)
  have v: "check_cve_signatures demo_net ?s1 = (demo_final, demo_cve_events, None)"
    by code_simp
  have r: "reachable demo_net demo_scanner (start_pool demo_scanner)" by (rule reachable_start)
  have d: "JsonDump ''out.json'' demo_findings \<in> set demo_events" by (simp add: demo_events_def)
  have f: "findings demo_final = demo_findings" by (simp add: demo_final_def)
  from phases_in_order [of demo_net demo_scanner "start_pool demo_scanner" demo_sched ?s1
      demo_path_events demo_final demo_cve_events None demo_final demo_events None]
    t demo_no_other demo_no_other_cve c v r d f demo_run
  show ?thesis by blast
qed

subsection \<open>The export file parses back to the findings\<close>

lemma of_char_less_256: "(of_char c :: nat) < 256"
proof -
  have "(of_char c :: nat) mod 256 = of_char c" by simp
  then show ?thesis by (metis mod_less_divisor zero_less_numeral)
qed

lemma digits_256:
  fixes n :: nat
  assumes "n < 256"
  shows "n div 4096 mod 16 = 0" and "n div 256 mod 16 = 0" and "n div 16 mod 16 = n div 16"
  using assms by simp_all

lemma hexval_hexdigit: "n < 16 \<Longrightarrow> hexval (hexdigit n) = Some n"
  by (auto simp: hexval_def hexdigit_def is_digit_def)

lemma decode_uXXXX_hexdigits:
  assumes "n < 256"
  shows "decode_uXXXX (hexdigit (n div 4096 mod 16)) (hexdigit (n div 256 mod 16))
           (hexdigit (n div 16 mod 16)) (hexdigit (n mod 16)) = Some n"
proof -
  from assms have "n div 4096 mod 16 = 0" "n div 256 mod 16 = 0" "n div 16 mod 16 = n div 16"
    by simp_all
  moreover have "hexval (hexdigit 0) = Some 0" "hexval (hexdigit (n div 16)) = Some (n div 16)"
    "hexval (hexdigit (n mod 16)) = Some (n mod 16)"
    using assms by (simp_all add: hexval_hexdigit)
  ultimately show ?thesis by (simp add: decode_uXXXX_def)
qed

lemma scanstring_escape_char:
  "scanstring (escape_char c @ rest)
     = (case scanstring rest of None \<Rightarrow> None | Some (str, r) \<Rightarrow> Some (c # str, r))"
proof -
  consider (special) "c = bs \<or> c = dq \<or> c = CHR 0x08 \<or> c = CHR 0x0C \<or> c = CHR 0x0A
      \<or> c = CHR 0x0D \<or> c = CHR 0x09"
    | (plain) "c \<noteq> bs" "c \<noteq> dq" "32 \<le> (of_char c :: nat)" "(of_char c :: nat) \<le> 126"
    | (other) "c \<noteq> bs" "c \<noteq> dq" "c \<noteq> CHR 0x08" "c \<noteq> CHR 0x0C" "c \<noteq> CHR 0x0A"
        "c \<noteq> CHR 0x0D" "c \<noteq> CHR 0x09"
        "\<not> (32 \<le> (of_char c :: nat) \<and> (of_char c :: nat) \<le> 126)"
    by blast
  then show ?thesis
  proof cases
    case special
    then show ?thesis by (auto simp: escape_char_def unescape_def)
  next
    case plain
    then have "escape_char c = [c]" by (auto simp: escape_char_def)
    with plain show ?thesis by simp
  next
    case other
    let ?n = "of_char c :: nat"
    have lt: "?n < 256" by (rule of_char_less_256)
    note z = digits_256 [OF lt]
    from other have "escape_char c = [bs, CHR ''u'', hexdigit (?n div 4096 mod 16),
        hexdigit (?n div 256 mod 16), hexdigit (?n div 16 mod 16), hexdigit (?n mod 16)]"
      by (simp add: escape_char_def)
    then have e: "escape_char c
        = [bs, CHR ''u'', hexdigit 0, hexdigit 0, hexdigit (?n div 16), hexdigit (?n mod 16)]"
      by (simp only: z)
    from decode_uXXXX_hexdigits [OF lt]
    have d: "decode_uXXXX (hexdigit 0) (hexdigit 0) (hexdigit (?n div 16)) (hexdigit (?n mod 16))
        = Some ?n"
      by (simp only: z)
    show ?thesis unfolding e by (cases "scanstring rest") (auto simp: d lt)
  qed
qed

lemma scanstring_escaped:
  "scanstring (concat (map escape_char s) @ dq # rest) = Some (s, rest)"
proof (induction s)
  case Nil
  show ?case by simp
next
  case (Cons c s)
  then show ?case by (simp add: scanstring_escape_char del: scanstring.simps(2))
qed

lemma json_of_finding_jpair: "json_of_finding f = JObject (map jpair f)"
  by (simp add: json_of_finding_def jpair_def)

lemma join_Cons: "join sep (x # xs) = x @ concat (map (\<lambda>y. sep @ y) xs)"
  by (induction xs arbitrary: x) simp_all

lemma skip_ws_newline_indent: "skip_ws (newline_indent l @ s) = skip_ws s"
proof -
  have "dropWhile is_ws (replicate k CHR '' '' @ s) = dropWhile is_ws s" for k
    by (induction k) (simp_all add: is_ws_def)
  then show ?thesis by (simp add: skip_ws_def newline_indent_def is_ws_def)
qed

lemma skip_ws_stop: "\<not> is_ws c \<Longrightarrow> skip_ws (c # s) = c # s"
  by (simp add: skip_ws_def)

lemma skip_ws_space: "skip_ws (CHR '' '' # s) = skip_ws s"
  by (simp add: skip_ws_def is_ws_def)

lemma not_ws:
  "\<not> is_ws dq" "\<not> is_ws CHR ''{''" "\<not> is_ws CHR ''}''" "\<not> is_ws CHR ''[''" "\<not> is_ws CHR '']''"
  "\<not> is_ws CHR '',''" "\<not> is_ws CHR '':''"
  by (simp_all add: is_ws_def)

text \<open>One turn of each loop of the parser, as rules.\<close>

lemma scan_once_string:
  "scan_once (Suc n) (dq # concat (map escape_char v) @ dq # rest) = Some (JString v, rest)"
  by (simp add: scanstring_escaped)

lemma JSONObject_last:
  assumes "scanstring s = Some (key, s1)" and "skip_ws s1 = CHR '':'' # s2"
    and "scan_once n (skip_ws s2) = Some (v, s3)" and "skip_ws s3 = CHR ''}'' # s4"
  shows "JSONObject (Suc n) acc s = Some (JObject (dict_of (acc @ [(key, v)])), s4)"
  by (simp add: assms)

lemma JSONObject_more:
  assumes "scanstring s = Some (key, s1)" and "skip_ws s1 = CHR '':'' # s2"
    and "scan_once n (skip_ws s2) = Some (v, s3)" and "skip_ws s3 = CHR '','' # s4"
    and "skip_ws s4 = dq # s5"
  shows "JSONObject (Suc n) acc s = JSONObject n (acc @ [(key, v)]) s5"
  by (simp add: assms)

lemma JSONArray_last:
  assumes "scan_once n s = Some (v, s1)" and "skip_ws s1 = CHR '']'' # s2"
  shows "JSONArray (Suc n) vals s = Some (JArray (vals @ [v]), s2)"
  by (simp add: assms)

lemma JSONArray_more:
  assumes "scan_once n s = Some (v, s1)" and "skip_ws s1 = CHR '','' # s2"
  shows "JSONArray (Suc n) vals s = JSONArray n (vals @ [v]) (skip_ws s2)"
  by (simp add: assms)

lemma scan_once_empty_object:
  "scan_once (Suc n) (CHR ''{'' # CHR ''}'' # rest) = Some (JObject [], rest)"
  by (simp add: skip_ws_stop not_ws)

lemma scan_once_object:
  assumes "skip_ws cs = dq # cs'"
  shows "scan_once (Suc n) (CHR ''{'' # cs) = JSONObject n [] cs'"
  by (simp add: assms)

lemma scan_once_empty_array:
  "scan_once (Suc n) (CHR ''['' # CHR '']'' # rest) = Some (JArray [], rest)"
  by (simp add: skip_ws_stop not_ws)

lemma scan_once_array:
  assumes "skip_ws cs = CHR ''{'' # cs'"
  shows "scan_once (Suc n) (CHR ''['' # cs) = JSONArray n [] (CHR ''{'' # cs')"
  by (simp add: assms)


lemma encode_item_tail: "encode_item kv = dq # item_tail kv"
  by (simp add: encode_item_def item_tail_def encode_basestring_ascii_def)

lemma item_scanned:
  "scanstring (item_tail p @ X)
     = Some (fst p, CHR '':'' # CHR '' '' # dq # concat (map escape_char (snd p)) @ dq # X)"
  using scanstring_escaped [of "fst p"] by (simp add: item_tail_def)

lemma value_scanned:
  "scan_once (Suc m) (skip_ws (CHR '' '' # dq # concat (map escape_char v) @ dq # X))
     = Some (JString v, X)"
  by (simp only: skip_ws_space skip_ws_stop [OF not_ws(1)] scan_once_string)

lemma JSONObject_items:
  "length ps + 2 \<le> n \<Longrightarrow>
   JSONObject n acc
     (item_tail p @ concat (map (\<lambda>kv. ('','' @ newline_indent l) @ encode_item kv) ps)
        @ newline_indent l' @ CHR ''}'' # rest)
   = Some (JObject (dict_of (acc @ map jpair (p # ps))), rest)"
proof (induction ps arbitrary: n acc p)
  case Nil
  then obtain m where n: "n = Suc (Suc m)"
    by (cases n; simp) (rename_tac k, case_tac k; simp)
  have e: "skip_ws (newline_indent l' @ CHR ''}'' # rest) = CHR ''}'' # rest"
    by (simp only: skip_ws_newline_indent skip_ws_stop [OF not_ws(3)])
  have "JSONObject (Suc (Suc m)) acc (item_tail p @ newline_indent l' @ CHR ''}'' # rest)
      = Some (JObject (dict_of (acc @ [(fst p, JString (snd p))])), rest)"
    by (rule JSONObject_last [OF item_scanned skip_ws_stop [OF not_ws(7)] value_scanned e])
  then show ?case by (simp add: n jpair_def del: JSONObject.simps)
next
  case (Cons q qs)
  then obtain m where n: "n = Suc (Suc m)" and m: "length qs + 2 \<le> Suc m"
    by (cases n; simp) (rename_tac k, case_tac k; simp)
  let ?Y = "concat (map (\<lambda>kv. ('','' @ newline_indent l) @ encode_item kv) qs)
        @ newline_indent l' @ CHR ''}'' # rest"
  let ?X = "CHR '','' # newline_indent l @ dq # item_tail q @ ?Y"
  have x: "concat (map (\<lambda>kv. ('','' @ newline_indent l) @ encode_item kv) (q # qs))
        @ newline_indent l' @ CHR ''}'' # rest = ?X"
    by (simp add: encode_item_tail)
  have c: "skip_ws ?X = CHR '','' # newline_indent l @ dq # item_tail q @ ?Y"
    by (rule skip_ws_stop [OF not_ws(6)])
  have d: "skip_ws (newline_indent l @ dq # item_tail q @ ?Y) = dq # item_tail q @ ?Y"
    by (simp only: skip_ws_newline_indent skip_ws_stop [OF not_ws(1)])
  have "JSONObject (Suc (Suc m)) acc (item_tail p @ ?X)
      = JSONObject (Suc m) (acc @ [jpair p]) (item_tail q @ ?Y)"
    unfolding jpair_def
    by (rule JSONObject_more [OF item_scanned skip_ws_stop [OF not_ws(7)] value_scanned c d])
  also have "\<dots> = Some (JObject (dict_of ((acc @ [jpair p]) @ map jpair (q # qs))), rest)"
    by (rule Cons.IH [OF m])
  finally have "JSONObject (Suc (Suc m)) acc (item_tail p @ ?X)
      = Some (JObject (dict_of (acc @ map jpair (p # q # qs))), rest)"
    by (simp del: JSONObject.simps)
  then show ?case by (simp only: x n)
qed

lemma iterencode_dict_Cons:
  "iterencode_dict l (p # ps) @ rest
     = CHR ''{'' # newline_indent (l + 1) @ dq # item_tail p
         @ concat (map (\<lambda>kv. ('','' @ newline_indent (l + 1)) @ encode_item kv) ps)
         @ newline_indent l @ CHR ''}'' # rest"
  by (simp add: iterencode_dict_def join_Cons encode_item_tail comp_def)

lemma iterencode_dict_brace: "\<exists>cs. iterencode_dict l f = CHR ''{'' # cs"
  by (cases f) (simp_all add: iterencode_dict_def)

lemma skip_ws_dict: "skip_ws (iterencode_dict l f @ rest) = iterencode_dict l f @ rest"
proof -
  from iterencode_dict_brace [of l f] obtain cs where "iterencode_dict l f = CHR ''{'' # cs" ..
  then show ?thesis by (simp add: skip_ws_stop [OF not_ws(2)])
qed

lemma scan_once_dict:
  assumes "length f + 3 \<le> n"
  shows "scan_once n (iterencode_dict l f @ rest) = Some (JObject (dict_of (map jpair f)), rest)"
proof (cases f)
  case Nil
  from assms obtain m where "n = Suc m" by (cases n) simp_all
  with Nil scan_once_empty_object [of m rest] show ?thesis
    by (simp add: iterencode_dict_def dict_of_def del: scan_once.simps)
next
  case (Cons p ps)
  from assms Cons obtain m where n: "n = Suc m" and m: "length ps + 2 \<le> m"
    by (cases n) simp_all
  let ?Y = "item_tail p
         @ concat (map (\<lambda>kv. ('','' @ newline_indent (l + 1)) @ encode_item kv) ps)
         @ newline_indent l @ CHR ''}'' # rest"
  have "skip_ws (newline_indent (l + 1) @ dq # ?Y) = dq # ?Y"
    by (simp only: skip_ws_newline_indent skip_ws_stop [OF not_ws(1)])
  from scan_once_object [OF this, of m]
  have "scan_once (Suc m) (CHR ''{'' # newline_indent (l + 1) @ dq # ?Y) = JSONObject m [] ?Y" .
  also from JSONObject_items [OF m, of "[]" p "l + 1" l rest]
  have "JSONObject m [] ?Y = Some (JObject (dict_of (map jpair (p # ps))), rest)"
    by (simp del: JSONObject.simps)
  finally show ?thesis unfolding Cons n iterencode_dict_Cons .
qed

lemma JSONArray_items:
  "length fs + M + 4 \<le> n \<Longrightarrow> \<forall>g \<in> set (f # fs). length g \<le> M \<Longrightarrow>
   JSONArray n vals
     (iterencode_dict l f @ concat (map (\<lambda>g. ('','' @ newline_indent l) @ iterencode_dict l g) fs)
        @ newline_indent l' @ CHR '']'' # rest)
   = Some (JArray (vals @ map (\<lambda>g. JObject (dict_of (map jpair g))) (f # fs)), rest)"
proof (induction fs arbitrary: n vals f)
  case Nil
  then obtain m where n: "n = Suc m" and m: "length f + 3 \<le> m" by (cases n) simp_all
  have e: "skip_ws (newline_indent l' @ CHR '']'' # rest) = CHR '']'' # rest"
    by (simp only: skip_ws_newline_indent skip_ws_stop [OF not_ws(5)])
  from JSONArray_last [OF scan_once_dict [OF m] e, of vals l]
  show ?case by (simp add: n del: JSONArray.simps)
next
  case (Cons g gs)
  then obtain m where n: "n = Suc m" and m: "length f + 3 \<le> m" "length gs + M + 4 \<le> m"
    by (cases n) simp_all
  from Cons.prems(2) have b: "\<forall>h \<in> set (g # gs). length h \<le> M" by simp
  let ?Y = "concat (map (\<lambda>g. ('','' @ newline_indent l) @ iterencode_dict l g) gs)
        @ newline_indent l' @ CHR '']'' # rest"
  let ?X = "CHR '','' # newline_indent l @ iterencode_dict l g @ ?Y"
  have x: "concat (map (\<lambda>g. ('','' @ newline_indent l) @ iterencode_dict l g) (g # gs))
        @ newline_indent l' @ CHR '']'' # rest = ?X" by simp
  have c: "skip_ws ?X = CHR '','' # newline_indent l @ iterencode_dict l g @ ?Y"
    by (rule skip_ws_stop [OF not_ws(6)])
  have d: "skip_ws (newline_indent l @ iterencode_dict l g @ ?Y) = iterencode_dict l g @ ?Y"
    by (simp only: skip_ws_newline_indent skip_ws_dict)
  from JSONArray_more [OF scan_once_dict [OF m(1)] c, of vals l]
  have "JSONArray (Suc m) vals (iterencode_dict l f @ ?X)
      = JSONArray m (vals @ [JObject (dict_of (map jpair f))]) (iterencode_dict l g @ ?Y)"
    by (simp only: d)
  also have "\<dots> = Some (JArray (vals @ map (\<lambda>g. JObject (dict_of (map jpair g))) (f # g # gs)), rest)"
    using Cons.IH [OF m(2) b, of "vals @ [JObject (dict_of (map jpair f))]"]
    by (simp del: JSONArray.simps)
  finally show ?case by (simp only: x n)
qed

lemma dict_set_new: "k \<notin> fst ` set d \<Longrightarrow> dict_set d k v = d @ [(k, v)]"
  by (induction d) auto

lemma foldl_dict_set:
  "distinct (map fst (acc @ ps)) \<Longrightarrow>
   foldl (\<lambda>d kv. dict_set d (fst kv) (snd kv)) acc ps = acc @ ps"
proof (induction ps arbitrary: acc)
  case Nil
  show ?case by simp
next
  case (Cons p ps)
  from Cons.prems have "fst p \<notin> fst ` set acc" by auto
  then have "dict_set acc (fst p) (snd p) = acc @ [p]" by (simp add: dict_set_new)
  moreover from Cons.prems have "distinct (map fst ((acc @ [p]) @ ps))" by simp
  ultimately show ?case using Cons.IH [of "acc @ [p]"] by simp
qed

lemma dict_of_distinct: "distinct (map fst ps) \<Longrightarrow> dict_of ps = ps"
  using foldl_dict_set [of "[]" ps] by (simp add: dict_of_def)

lemma dict_of_jpair: "distinct (map fst f) \<Longrightarrow> dict_of (map jpair f) = map jpair f"
proof -
  assume d: "distinct (map fst f)"
  have "map fst (map jpair f) = map fst f" by (induction f) (simp_all add: jpair_def)
  with d have "distinct (map fst (map jpair f))" by (simp only:)
  then show "dict_of (map jpair f) = map jpair f" by (rule dict_of_distinct)
qed

lemma length_join: "sum_list (map length xs) \<le> length (join sep xs)"
  by (induction sep xs rule: join.induct) simp_all

lemma length_items: "length f \<le> sum_list (map length (map encode_item f))"
  by (induction f) (simp_all add: encode_item_tail)

lemma length_dict: "length f + 2 \<le> length (iterencode_dict l f)"
proof (cases "f = []")
  case True
  then show ?thesis by (simp add: iterencode_dict_def)
next
  case False
  from length_items [of f] length_join [of "map encode_item f" "'','' @ newline_indent (l + 1)"]
  have "length f \<le> length (join ('','' @ newline_indent (l + 1)) (map encode_item f))" by simp
  with False show ?thesis by (simp add: iterencode_dict_def)
qed

lemma length_dicts:
  "sum_list (map length fs) + 2 * length fs \<le> sum_list (map length (map (iterencode_dict l) fs))"
proof (induction fs)
  case Nil
  show ?case by simp
next
  case (Cons f fs)
  with length_dict [of f l] show ?case by simp
qed

lemma length_dumps:
  "sum_list (map length fs) + 2 * length fs + 2 \<le> length (json_dumps fs)"
proof (cases "fs = []")
  case True
  then show ?thesis by (simp add: json_dumps_def iterencode_list_def)
next
  case False
  from length_dicts [of fs 1]
    length_join [of "map (iterencode_dict 1) fs" "'','' @ newline_indent 1"]
  have "sum_list (map length fs) + 2 * length fs
      \<le> length (join ('','' @ newline_indent 1) (map (iterencode_dict 1) fs))" by simp
  with False show ?thesis by (simp add: json_dumps_def iterencode_list_def)
qed

lemma json_dumps_Cons:
  "json_dumps (f # fs)
     = CHR ''['' # newline_indent 1 @ iterencode_dict 1 f
         @ concat (map (\<lambda>g. ('','' @ newline_indent 1) @ iterencode_dict 1 g) fs)
         @ newline_indent 0 @ CHR '']'' # []"
  by (simp add: json_dumps_def iterencode_list_def join_Cons comp_def)

lemma json_loads_dumps:
  "json_loads (json_dumps fs) = Some (JArray (map (\<lambda>g. JObject (dict_of (map jpair g))) fs))"
proof (cases fs)
  case Nil
  have "json_dumps [] = CHR ''['' # CHR '']'' # []" by (simp add: json_dumps_def iterencode_list_def)
  moreover have "skip_ws (CHR ''['' # CHR '']'' # []) = CHR ''['' # CHR '']'' # []"
    by (rule skip_ws_stop [OF not_ws(4)])
  moreover have "skip_ws [] = []" by (simp add: skip_ws_def)
  ultimately show ?thesis using Nil scan_once_empty_array [of 5 "[]"]
    by (simp add: json_loads_def del: scan_once.simps)
next
  case (Cons f gs)
  let ?M = "sum_list (map length (f # gs))"
  let ?Y = "concat (map (\<lambda>g. ('','' @ newline_indent 1) @ iterencode_dict 1 g) gs)
         @ newline_indent 0 @ CHR '']'' # []"
  let ?n = "2 * length (json_dumps (f # gs)) + 1"
  from iterencode_dict_brace [of 1 f] obtain cs where cs: "iterencode_dict 1 f = CHR ''{'' # cs" ..
  have w: "skip_ws (json_dumps (f # gs)) = json_dumps (f # gs)"
    unfolding json_dumps_Cons by (rule skip_ws_stop [OF not_ws(4)])
  have "skip_ws (newline_indent 1 @ CHR ''{'' # cs @ ?Y) = CHR ''{'' # cs @ ?Y"
    by (simp only: skip_ws_newline_indent skip_ws_stop [OF not_ws(2)])
  from scan_once_array [OF this, of ?n]
  have a: "scan_once (Suc ?n) (CHR ''['' # newline_indent 1 @ CHR ''{'' # cs @ ?Y)
      = JSONArray ?n [] (CHR ''{'' # cs @ ?Y)" .
  have eq1: "CHR ''['' # newline_indent 1 @ CHR ''{'' # cs @ ?Y = json_dumps (f # gs)"
    unfolding json_dumps_Cons cs by (simp only: append_Cons)
  have eq2: "CHR ''{'' # cs @ ?Y = iterencode_dict 1 f @ ?Y"
    unfolding cs by (simp only: append_Cons)
  from a have "scan_once (Suc ?n) (json_dumps (f # gs)) = JSONArray ?n [] (iterencode_dict 1 f @ ?Y)"
    by (simp only: eq2 json_dumps_Cons)
  also have "\<dots> = Some (JArray ([] @ map (\<lambda>g. JObject (dict_of (map jpair g))) (f # gs)), [])"
  proof (rule JSONArray_items [of gs ?M])
    from length_dumps [of "f # gs"] show "length gs + ?M + 4 \<le> ?n" by simp
    show "\<forall>g \<in> set (f # gs). length g \<le> ?M"
    proof
      fix g assume "g \<in> set (f # gs)"
      then have "length g \<in> set (map length (f # gs))" by (simp only: set_map) (rule imageI)
      then show "length g \<le> ?M" by (rule member_le_sum_list) simp
    qed
  qed
  finally have "scan_once (Suc ?n) (skip_ws (json_dumps (f # gs)))
      = Some (JArray (map (\<lambda>g. JObject (dict_of (map jpair g))) (f # gs)), [])"
    by (simp only: w append_Nil)
  moreover have "Suc ?n = 2 * length (json_dumps (f # gs)) + 2" by simp
  moreover have "skip_ws [] = []" by (simp add: skip_ws_def)
  ultimately show ?thesis unfolding Cons json_loads_def
    by (simp del: scan_once.simps)
qed

lemma json_round_trip:
  assumes "list_all (\<lambda>f. distinct (map fst f)) fs"
  shows "json_loads (json_dumps fs) = Some (JArray (map json_of_finding fs))"
proof -
  from assms have "map (\<lambda>g. JObject (dict_of (map jpair g))) fs = map json_of_finding fs"
    by (simp add: list_all_iff dict_of_jpair json_of_finding_jpair)
  with json_loads_dumps [of fs] show ?thesis by simp
qed

lemma exposed_path_finding_record: "finding_record (exposed_path_finding s pth)"
  by (simp add: finding_record_def exposed_path_finding_def)

lemma cve_task_record:
  assumes "cve_task net s t = (s1, ev, r)"
  shows "findings s1 = findings s \<or> (\<exists>f. findings s1 = findings s @ [f] \<and> finding_record f)"
proof -
  obtain r0 ev0 where g: "robust_get net (target s @ path (snd t)) (timeout s) = (r0, ev0)"
    by (cases "robust_get net (target s @ path (snd t)) (timeout s)") auto
  from assms g show ?thesis
    by (auto simp: cve_task_def Let_def finding_record_def split: sum.splits if_splits)
qed

lemma cve_loop_records:
  "cve_loop net ts s = (s', ev, r) \<Longrightarrow>
   \<exists>new. findings s' = findings s @ new \<and> list_all finding_record new"
proof (induction ts arbitrary: s s' ev r)
  case Nil
  then show ?case by simp
next
  case (Cons t ts)
  obtain s1 ev1 r1 where t: "cve_task net s t = (s1, ev1, r1)"
    by (cases "cve_task net s t") auto
  from cve_task_record [OF t] obtain new1 where
    n1: "findings s1 = findings s @ new1" "list_all finding_record new1" by auto
  show ?case
  proof (cases r1)
    case (Inl e)
    with t Cons.prems have "s' = s1" by simp
    with n1 show ?thesis by blast
  next
    case (Inr f)
    obtain s2 ev2 r2 where l: "cve_loop net ts s1 = (s2, ev2, r2)"
      by (cases "cve_loop net ts s1") auto
    with t Inr Cons.prems have "s' = s2" by simp
    moreover from Cons.IH [OF l] obtain new2 where
      "findings s2 = findings s1 @ new2" "list_all finding_record new2" by blast
    ultimately have "findings s' = findings s @ (new1 @ new2)"
      "list_all finding_record (new1 @ new2)" using n1 by simp_all
    then show ?thesis by blast
  qed
qed

lemma run_records:
  assumes "run net sched s = Some (s', ev, r)" and "list_all finding_record (findings s)"
  shows "list_all finding_record (findings s')"
proof -
  from run_cases [OF assms(1)] obtain s1 ev1 ev2 where
    c: "check_common_paths net sched s = Some (s1, ev1)"
       "check_cve_signatures net s1 = (s', ev2, r)" by blast
  from common_paths_returned [OF c(1)] obtain new1 where
    n1: "findings s1 = findings s @ new1"
        "mset new1 = mset (map (exposed_path_finding s) (filter (status_200 net s) COMMON_PATHS))"
    by blast
  from n1(2) have "set new1
      = set (map (exposed_path_finding s) (filter (status_200 net s) COMMON_PATHS))"
    by (rule mset_eq_setD)
  then have r1: "list_all finding_record new1"
    using exposed_path_finding_record by (auto simp: list_all_iff)
  obtain ev0 where l: "cve_loop net CVE_PATHS s1 = (s', ev0, r)"
    using c(2) by (cases "cve_loop net CVE_PATHS s1") (auto simp: check_cve_signatures_def)
  from cve_loop_records [OF l] obtain new2 where
    "findings s' = findings s1 @ new2" "list_all finding_record new2" by blast
  with n1(1) r1 assms(2) show ?thesis by simp
qed

lemma finding_record_distinct:
  "list_all finding_record fs \<Longrightarrow> list_all (\<lambda>f. distinct (map fst f)) fs"
  by (simp add: list_all_iff finding_record_def)

text \<open>
  Claim C8. The text that \<^verbatim>\<open>json.dump(..., indent=2)\<close> writes for a list of findings (dicts:
  their keys are distinct) parses back to an array of the same length whose elements are
  objects with the same keys, in the same order, and the same string values. In a run of a
  scanner as the constructor makes it, the text written to the output file is that of
  \<^verbatim>\<open>self.findings\<close> at that moment, it parses back to it, and every element is a Finding
  JSON record.
\<close>

theorem exported_json_round_trip:
  "(list_all (\<lambda>f. distinct (map fst f)) fs \<longrightarrow>
      json_loads (json_dumps fs) = Some (JArray (map json_of_finding fs))
      \<and> length (map json_of_finding fs) = length fs)
   \<and> (run net sched (WebVulnScanner tgt tmo thr out) = Some (s', ev, r)
        \<and> e \<in> set ev \<and> file_written e = Some (fl, txt) \<longrightarrow>
      txt = json_dumps (findings s')
      \<and> list_all finding_record (findings s')
      \<and> json_loads txt = Some (JArray (map json_of_finding (findings s'))))"
proof (intro conjI impI)
  assume "list_all (\<lambda>f. distinct (map fst f)) fs"
  then show "json_loads (json_dumps fs) = Some (JArray (map json_of_finding fs))"
    by (rule json_round_trip)
  show "length (map json_of_finding fs) = length fs" by simp
next
  assume a: "run net sched (WebVulnScanner tgt tmo thr out) = Some (s', ev, r)
        \<and> e \<in> set ev \<and> file_written e = Some (fl, txt)"
  then obtain gs where e: "e = JsonDump fl gs" and t: "txt = json_dumps gs"
    by (cases e) auto
  from a e have "JsonDump fl gs \<in> set ev" by simp
  from run_dumps [OF _ this] a have g: "gs = findings s'" by blast
  with t show "txt = json_dumps (findings s')" by simp
  have "list_all finding_record (findings (WebVulnScanner tgt tmo thr out))"
    by (simp add: WebVulnScanner_def)
  with a show rec: "list_all finding_record (findings s')" using run_records by blast
  from json_round_trip [OF finding_record_distinct [OF rec]] t g
  show "json_loads txt = Some (JArray (map json_of_finding (findings s')))" by simp
qed

lemma demo_findings_records: "list_all finding_record demo_findings"
  by (simp add: demo_findings_def finding_record_def)

theorem exported_json_round_trip_witness:
  "list_all (\<lambda>f. distinct (map fst f)) demo_findings
   \<and> json_loads (json_dumps demo_findings) = Some (JArray (map json_of_finding demo_findings))
   \<and> run demo_net demo_sched (WebVulnScanner ''http://h/'' 7 8 (Some ''out.json''))
       = Some (demo_final, demo_events, None)
   \<and> JsonDump ''out.json'' demo_findings \<in> set demo_events
   \<and> file_written (JsonDump ''out.json'' demo_findings)
       = Some (''out.json'', json_dumps demo_findings)
   \<and> findings demo_final = demo_findings
   \<and> list_all finding_record demo_findings"
proof -
  have r: "run demo_net demo_sched (WebVulnScanner ''http://h/'' 7 8 (Some ''out.json''))
     = Some (demo_final, demo_events, None)"
    using demo_run by (simp add: demo_scanner_def)
  have d: "JsonDump ''out.json'' demo_findings \<in> set demo_events" by (simp add: demo_events_def)
  have f: "findings demo_final = demo_findings" by (simp add: demo_final_def)
  have w: "file_written (JsonDump ''out.json'' demo_findings)
       = Some (''out.json'', json_dumps demo_findings)" by simp
  note k = finding_record_distinct [OF demo_findings_records]
  from exported_json_round_trip [of demo_findings demo_net demo_sched "''http://h/''" 7 8
      "Some ''out.json''" demo_final demo_events None "JsonDump ''out.json'' demo_findings"
      "''out.json''" "json_dumps demo_findings"] r d f w k
  show ?thesis by simp
qed

text \<open>The text written for the findings of the concrete run, character by character.\<close>

lemma demo_export_text:
  "json_dumps [[(''type'', ''exposed_path''), (''url'', ''http://h/admin'')]]
     = ''['' @ [CHR 0x0A] @ ''  {'' @ [CHR 0x0A]
       @ ''    '' @ [dq] @ ''type'' @ [dq] @ '': '' @ [dq] @ ''exposed_path'' @ [dq] @ '','' @ [CHR 0x0A]
       @ ''    '' @ [dq] @ ''url'' @ [dq] @ '': '' @ [dq] @ ''http://h/admin'' @ [dq] @ [CHR 0x0A]
       @ ''  }'' @ [CHR 0x0A] @ '']''"
  by code_simp
end
